theory Spec2Isabelle
  imports Main
begin

section \<open>Strings\<close>

text \<open>
  A \<open>QString\<close> is modelled as a \<^typ>\<open>string\<close>. The operations the program uses are
  \<open>isEmpty\<close> (comparison with the empty list), \<open>length\<close>, \<open>mid(n)\<close>, \<open>startsWith\<close>,
  \<open>endsWith\<close> (case sensitive, and case insensitive for the suffix \<open>.vfsarc\<close>) and
  \<open>split('/', QString::SkipEmptyParts)\<close>. The characters are the 8-bit characters of
  \<^typ>\<open>char\<close>. The one comparison without case is with the suffix \<open>.vfsarc\<close>; among
  these characters only the letters A to Z fold to a letter of the suffix, so
  \<open>toLowerChar\<close> folds these and no other.
\<close>

definition startsWith :: "string \<Rightarrow> string \<Rightarrow> bool" where
  "startsWith s p = (take (length p) s = p)"

definition endsWith :: "string \<Rightarrow> string \<Rightarrow> bool" where
  "endsWith s p = (length p \<le> length s \<and> drop (length s - length p) s = p)"

definition mid :: "string \<Rightarrow> nat \<Rightarrow> string" where
  "mid s n = drop n s"

definition toLowerChar :: "char \<Rightarrow> char" where
  "toLowerChar c =
     (case map_of (zip ''ABCDEFGHIJKLMNOPQRSTUVWXYZ'' ''abcdefghijklmnopqrstuvwxyz'') c of
        Some l \<Rightarrow> l
      | None \<Rightarrow> c)"

definition endsWithCI :: "string \<Rightarrow> string \<Rightarrow> bool" where
  "endsWithCI s p =
     (length p \<le> length s \<and>
      map toLowerChar (drop (length s - length p) s) = map toLowerChar p)"

text \<open>
  \<open>splitFrom cur s\<close> scans \<open>s\<close> with the segment read so far in \<open>cur\<close>; a segment is
  closed at every \<open>/\<close> and at the end, and empty segments are dropped.
\<close>

fun splitFrom :: "string \<Rightarrow> string \<Rightarrow> string list" where
  "splitFrom cur [] = (if cur = [] then [] else [cur])"
| "splitFrom cur (c # cs) =
     (if c = CHR ''/'' then (if cur = [] then [] else [cur]) @ splitFrom [] cs
      else splitFrom (cur @ [c]) cs)"

definition splitSkipEmpty :: "string \<Rightarrow> string list" where
  "splitSkipEmpty s = splitFrom [] s"

text \<open>\<open>QFileInfo(path).fileName()\<close>: what follows the last \<open>/\<close> of the path.\<close>

definition fileName :: "string \<Rightarrow> string" where
  "fileName p = rev (takeWhile (\<lambda>c. c \<noteq> CHR ''/'') (rev p))"

section \<open>The archive tree\<close>

text \<open>
  \<open>struct ArchiveItem\<close>. The \<open>parent\<close> pointer is the position of the node in the tree
  and is not stored; the children are owned by their parent, so the pointer structure
  is a tree and a node is modelled by value.
\<close>

datatype NodeType = File | Folder | ArchiveFolder

datatype ArchiveItem =
  ArchiveItem (name: string) (type: NodeType) (children: "ArchiveItem list")
              (fullPathInArchive: string) (childrenPopulated: bool)

definition setChildren :: "ArchiveItem \<Rightarrow> ArchiveItem list \<Rightarrow> ArchiveItem" where
  "setChildren it cs =
     ArchiveItem (name it) (type it) cs (fullPathInArchive it) (childrenPopulated it)"

text \<open>The root made by the constructor of \<open>ArchiveModel\<close>, and \<open>ArchiveModel::clear\<close>.\<close>

definition root0 :: ArchiveItem where
  "root0 = ArchiveItem ''/'' Folder [] [] False"

definition clear :: "ArchiveItem \<Rightarrow> ArchiveItem" where
  "clear r = setChildren r []"

text \<open>
  The loop over \<open>parts\<close> of \<open>ArchiveModel::populateFromList\<close> for one entry \<open>e\<close>, as a
  function of the children of \<open>cur\<close>. The third argument is \<open>accum\<close>. The search
  \<open>for (ArchiveItem *ch : cur->children)\<close> is the recursion over the list of children:
  at the first child of that name the walk goes on below it with \<open>accum\<close> as it is; when
  the list is exhausted the item is created and appended, and the walk goes on below the
  new item with the new \<open>accum\<close>. The test \<open>i < parts.size() - 1\<close> is
  \<open>rest \<noteq> []\<close>.
\<close>

fun walkParts :: "string \<Rightarrow> string list \<Rightarrow> string \<Rightarrow> ArchiveItem list \<Rightarrow> ArchiveItem list" where
  "walkParts e [] accum chs = chs"
| "walkParts e (part # rest) accum [] =
     (let accum' = (if accum = [] then part else accum @ ''/'' @ part);
          ty = (if rest \<noteq> [] \<or> endsWith e ''/'' then Folder
                else if endsWithCI part ''.vfsarc'' then ArchiveFolder else File)
      in [ArchiveItem part ty (walkParts e rest accum' []) accum' False])"
| "walkParts e (part # rest) accum (ch # chs) =
     (if name ch = part then setChildren ch (walkParts e rest accum (children ch)) # chs
      else ch # walkParts e (part # rest) accum chs)"

text \<open>The body of the loop over the entries, on the node \<open>parentNode\<close> points to.\<close>

definition populateEntry :: "string \<Rightarrow> string \<Rightarrow> ArchiveItem \<Rightarrow> ArchiveItem" where
  "populateEntry prefix e parentNode =
     (if prefix \<noteq> [] \<and> \<not> startsWith e prefix then parentNode
      else let rel = (if prefix = [] then e else mid e (length prefix));
               parts = splitSkipEmpty rel
           in setChildren parentNode (walkParts e parts prefix (children parentNode)))"

definition populateFromList :: "string list \<Rightarrow> string \<Rightarrow> ArchiveItem \<Rightarrow> ArchiveItem" where
  "populateFromList entries prefix parentNode =
     foldl (\<lambda>n e. populateEntry prefix e n) parentNode entries"

text \<open>
  A pointer to a node of the model is the list of child indices that leads to it from
  the root. \<open>modifyAt\<close> runs an update on the node a pointer denotes; a list of indices
  that denotes no node is no pointer of the program, and leaves the tree as it is.
  \<open>populateModel\<close> is \<open>populateFromList\<close> as a method of the model: a null
  \<open>parentNode\<close> stands for the root.
\<close>

fun modifyAt :: "nat list \<Rightarrow> (ArchiveItem \<Rightarrow> ArchiveItem) \<Rightarrow> ArchiveItem \<Rightarrow> ArchiveItem" where
  "modifyAt [] f n = f n"
| "modifyAt (k # ks) f n =
     (if k < length (children n)
      then setChildren n ((children n)[k := modifyAt ks f (children n ! k)])
      else n)"

definition populateModel ::
  "string list \<Rightarrow> string \<Rightarrow> nat list option \<Rightarrow> ArchiveItem \<Rightarrow> ArchiveItem" where
  "populateModel entries prefix parentNode r =
     modifyAt (case parentNode of None \<Rightarrow> [] | Some ks \<Rightarrow> ks)
       (populateFromList entries prefix) r"

text \<open>The trees that calls of \<open>populateFromList\<close> make from the empty model.\<close>

inductive reachable :: "ArchiveItem \<Rightarrow> bool" where
  reachable_root: "reachable root0"
| reachable_populate:
    "reachable r \<Longrightarrow> reachable (populateModel entries prefix parentNode r)"

text \<open>
  \<open>ArchiveModel::findNodeByPath\<close>: the loop over the parts, with the same search for
  the first child of a name, and the function itself. A null result is \<open>None\<close>.
\<close>

fun findChild :: "string \<Rightarrow> ArchiveItem list \<Rightarrow> ArchiveItem option" where
  "findChild p [] = None"
| "findChild p (ch # chs) = (if name ch = p then Some ch else findChild p chs)"

fun findNodeByParts :: "string list \<Rightarrow> ArchiveItem \<Rightarrow> ArchiveItem option" where
  "findNodeByParts [] cur = Some cur"
| "findNodeByParts (p # ps) cur =
     (case findChild p (children cur) of
        None \<Rightarrow> None
      | Some ch \<Rightarrow> findNodeByParts ps ch)"

definition findNodeByPath :: "string \<Rightarrow> ArchiveItem \<Rightarrow> ArchiveItem option" where
  "findNodeByPath path start =
     (if path = [] then Some start else findNodeByParts (splitSkipEmpty path) start)"

text \<open>
  \<open>MainWindow::collectPathsRecursively\<close>, with the list \<open>out\<close> passed through. The
  pointers it is called with are never null (an item of the view, or a child).
\<close>

function collectPathsRecursively :: "ArchiveItem \<Rightarrow> string list \<Rightarrow> string list" where
  "collectPathsRecursively node out =
     (if type node = File \<or> type node = ArchiveFolder then out @ [fullPathInArchive node]
      else foldl (\<lambda>acc ch. collectPathsRecursively ch acc) out (children node))"
  by pat_completeness auto
termination
proof (relation "measure (\<lambda>(n, out). size n)")
  show "wf (measure (\<lambda>(n, out). size n))" by simp
next
  fix node :: ArchiveItem and out acc :: "string list" and ch
  assume "ch \<in> set (children node)"
  then have "size ch < size node"
    by (cases node) (auto simp: less_Suc_eq_le size_list_estimation')
  then show "((ch, acc), (node, out)) \<in> measure (\<lambda>(n, out). size n)" by simp
qed

declare collectPathsRecursively.simps [simp del]

section \<open>The environment\<close>

text \<open>
  What the program reads from outside itself is a parameter of the model: the exit code
  \<open>p.exitCode()\<close> and the trimmed lines of the standard output of a process run with
  \<open>QProcess\<close>, \<open>QFile::exists\<close>, the directory \<open>persistentTmp\<close> that
  \<open>extractEntryToTemp\<close> makes, \<open>QDir(dir).filePath(name)\<close>, the name of the
  \<open>QTemporaryFile\<close>, \<open>QDateTime::currentDateTime().toString(Qt::ISODate)\<close>, and the
  object read from a JSON file (\<open>None\<close> when the file cannot be opened). The answer of
  the user to \<open>QInputDialog::getText\<close> is the pair of the text and the flag \<open>ok\<close>.
\<close>

datatype json = JString string | JArray "json list" | JObject "(string \<times> json) list"

record world =
  exitCode :: "string \<Rightarrow> string list \<Rightarrow> int"
  stdoutLines :: "string \<Rightarrow> string list \<Rightarrow> string list"
  fileExists :: "string \<Rightarrow> bool"
  persistentTmp :: string
  filePath :: "string \<Rightarrow> string \<Rightarrow> string"
  tmpFileName :: string
  currentDateTime :: string
  readObject :: "string \<Rightarrow> (string \<times> json) list option"

text \<open>
  What the program does to the outside is written to a trace: a process that was run, a
  password dialog, a warning box, a temporary file written, and a backend deleted.
\<close>

record CliArchiveHandler =
  m_archive :: string
  m_password :: string

datatype event =
    Run string "string list"
  | Prompt string string
  | Warning string string
  | WriteTemp string json
  | Delete CliArchiveHandler

section \<open>The backend\<close>

text \<open>
  \<open>class CliArchiveHandler\<close>. A method that runs a process is a function of the
  environment; its arguments are a definition of their own, for the trace.
\<close>

definition newHandler :: CliArchiveHandler where
  "newHandler = \<lparr>m_archive = [], m_password = []\<rparr>"

definition openArchive :: "world \<Rightarrow> string \<Rightarrow> CliArchiveHandler \<Rightarrow> bool \<times> CliArchiveHandler" where
  "openArchive w path h = (fileExists w path, h\<lparr>m_archive := path\<rparr>)"

definition setPassword :: "string \<Rightarrow> CliArchiveHandler \<Rightarrow> CliArchiveHandler" where
  "setPassword pw h = h\<lparr>m_password := pw\<rparr>"

definition listArgs :: "CliArchiveHandler \<Rightarrow> string list" where
  "listArgs h =
     (if m_password h \<noteq> [] then [''-P'', m_password h] else []) @ [''-Z'', ''-1'', m_archive h]"

definition listEntries :: "world \<Rightarrow> CliArchiveHandler \<Rightarrow> string \<Rightarrow> string list" where
  "listEntries w h prefix =
     filter (\<lambda>line. line \<noteq> [] \<and> (prefix = [] \<or> startsWith line prefix))
       (stdoutLines w ''unzip'' (listArgs h))"

definition extractArgs :: "world \<Rightarrow> CliArchiveHandler \<Rightarrow> string \<Rightarrow> string list" where
  "extractArgs w h entry =
     (if m_password h \<noteq> [] then [''-P'', m_password h] else [])
       @ [m_archive h, entry, ''-d'', persistentTmp w]"

definition extractEntryToTemp :: "world \<Rightarrow> CliArchiveHandler \<Rightarrow> string \<Rightarrow> string option" where
  "extractEntryToTemp w h entry =
     (if exitCode w ''unzip'' (extractArgs w h entry) = 0
      then Some (filePath w (persistentTmp w) entry) else None)"

definition addArgs :: "CliArchiveHandler \<Rightarrow> string list \<Rightarrow> string list" where
  "addArgs h files = m_archive h # files"

definition addFiles :: "world \<Rightarrow> CliArchiveHandler \<Rightarrow> string list \<Rightarrow> bool" where
  "addFiles w h files = (exitCode w ''zip'' (addArgs h files) = 0)"

section \<open>The manifest\<close>

record ArchiveMetadata =
  version :: string
  created :: string
  tags :: "string list"

text \<open>
  \<open>QJsonValue::toString(default)\<close> of the value of a key, \<open>toArray\<close> of it, and
  \<open>toString()\<close> of an element.
\<close>

definition jsonString :: "(string \<times> json) list \<Rightarrow> string \<Rightarrow> string \<Rightarrow> string" where
  "jsonString obj key dflt = (case map_of obj key of Some (JString v) \<Rightarrow> v | _ \<Rightarrow> dflt)"

definition jsonArray :: "(string \<times> json) list \<Rightarrow> string \<Rightarrow> json list" where
  "jsonArray obj key = (case map_of obj key of Some (JArray vs) \<Rightarrow> vs | _ \<Rightarrow> [])"

definition jsonText :: "json \<Rightarrow> string" where
  "jsonText v = (case v of JString t \<Rightarrow> t | _ \<Rightarrow> [])"

text \<open>
  \<open>loadMetadata\<close>: the record it returns and the trace of what it does. The value that
  \<open>addFiles\<close> returns is not looked at.
\<close>

definition loadMetadata :: "world \<Rightarrow> CliArchiveHandler \<Rightarrow> ArchiveMetadata \<times> event list" where
  "loadMetadata w backend =
     (case extractEntryToTemp w backend ''.manifest.json'' of
        Some tmpPath \<Rightarrow>
          (case readObject w tmpPath of
             Some obj \<Rightarrow>
               (\<lparr>version = jsonString obj ''version'' ''1.0'',
                 created = jsonString obj ''created'' [],
                 tags = map jsonText (jsonArray obj ''tags'')\<rparr>,
                [Run ''unzip'' (extractArgs w backend ''.manifest.json'')])
           | None \<Rightarrow>
               (\<lparr>version = [], created = [], tags = []\<rparr>,
                [Run ''unzip'' (extractArgs w backend ''.manifest.json'')]))
      | None \<Rightarrow>
          (let meta = \<lparr>version = ''1.0'', created = currentDateTime w, tags = [''new'']\<rparr>;
               obj = JObject [(''version'', JString (version meta)),
                              (''created'', JString (created meta)),
                              (''tags'', JArray (map JString (tags meta)))]
           in (meta,
               [Run ''unzip'' (extractArgs w backend ''.manifest.json''),
                WriteTemp (tmpFileName w) obj,
                Run ''zip'' (addArgs backend [tmpFileName w])])))"

section \<open>The main window\<close>

text \<open>
  The members of \<open>MainWindow\<close> that the password and navigation code reads and writes.
  \<open>root\<close> is the tree of \<open>archiveModel\<close>. The widgets, the status bar and the text of
  the metadata view are left out. The object \<open>backend\<close> points to is held by value: the
  one caller of \<open>attemptPasswordAndLoadArchive\<close> passes \<open>backend\<close> as \<open>handler\<close>, so
  the two are one object.
\<close>

record MainWindow =
  backend :: CliArchiveHandler
  currentArchive :: string
  passwordCache :: "string \<rightharpoonup> string"
  globalPasswords :: "string list"
  archiveStack :: "string list"
  root :: ArchiveItem
  trace :: "event list"

definition initWindow :: MainWindow where
  "initWindow = \<lparr>backend = newHandler, currentArchive = [], passwordCache = Map.empty,
                  globalPasswords = [], archiveStack = [], root = root0, trace = []\<rparr>"

definition logEv :: "event list \<Rightarrow> MainWindow \<Rightarrow> MainWindow" where
  "logEv evs s = s\<lparr>trace := trace s @ evs\<rparr>"

text \<open>Which \<open>return\<close> of \<open>attemptPasswordAndLoadArchive\<close> was taken.\<close>

datatype outcome = Resolved string | Cancelled | Exhausted

definition loadArchiveEntries :: "world \<Rightarrow> string list \<Rightarrow> string \<Rightarrow> MainWindow \<Rightarrow> MainWindow" where
  "loadArchiveEntries w entries archivePath s =
     s\<lparr>root := populateModel entries [] None (clear (root s)),
       archiveStack := [fileName archivePath],
       trace := trace s @ snd (loadMetadata w (backend s))\<rparr>"

text \<open>\<open>handler->setPassword(pw); QStringList entries = handler->listEntries();\<close>\<close>

definition setPasswordAndList :: "world \<Rightarrow> string \<Rightarrow> MainWindow \<Rightarrow> string list \<times> MainWindow" where
  "setPasswordAndList w pw s =
     (let h = setPassword pw (backend s)
      in (listEntries w h [], logEv [Run ''unzip'' (listArgs h)] (s\<lparr>backend := h\<rparr>)))"

text \<open>The loop over \<open>globalPasswords\<close>, up to the first password with a listing.\<close>

fun tryGlobalList ::
  "world \<Rightarrow> string list \<Rightarrow> MainWindow \<Rightarrow> (string \<times> string list) option \<times> MainWindow" where
  "tryGlobalList w [] s = (None, s)"
| "tryGlobalList w (pw # pws) s =
     (case setPasswordAndList w pw s of
        (entries, s1) \<Rightarrow>
          if entries \<noteq> [] then (Some (pw, entries), s1) else tryGlobalList w pws s1)"

text \<open>The dialog of \<open>attemptPasswordAndLoadArchive\<close> and what follows it.\<close>

definition promptAndList ::
  "world \<Rightarrow> string \<times> bool \<Rightarrow> string \<Rightarrow> MainWindow \<Rightarrow> outcome \<times> MainWindow" where
  "promptAndList w answer archivePath s =
     (let s1 = logEv [Prompt ''Password Required''
                        (''Enter password for '' @ fileName archivePath)] s;
          pw = fst answer; ok = snd answer
      in if \<not> ok then (Cancelled, s1)
         else case setPasswordAndList w pw s1 of
           (entries, s2) \<Rightarrow>
             if entries \<noteq> [] then
               (Resolved pw,
                loadArchiveEntries w entries archivePath
                  (s2\<lparr>passwordCache := (passwordCache s2)(archivePath \<mapsto> pw),
                      globalPasswords :=
                        (if pw \<noteq> [] \<and> pw \<notin> set (globalPasswords s2)
                         then globalPasswords s2 @ [pw] else globalPasswords s2)\<rparr>))
             else (Exhausted, logEv [Warning ''Password Failed'' ''Password did not work.''] s2))"

definition tryGlobalThenPrompt ::
  "world \<Rightarrow> string \<times> bool \<Rightarrow> string \<Rightarrow> MainWindow \<Rightarrow> outcome \<times> MainWindow" where
  "tryGlobalThenPrompt w answer archivePath s =
     (case tryGlobalList w (globalPasswords s) s of
        (Some (pw, entries), s1) \<Rightarrow>
          (Resolved pw,
           loadArchiveEntries w entries archivePath
             (s1\<lparr>passwordCache := (passwordCache s1)(archivePath \<mapsto> pw)\<rparr>))
      | (None, s1) \<Rightarrow> promptAndList w answer archivePath s1)"

definition attemptPasswordAndLoadArchive ::
  "world \<Rightarrow> string \<times> bool \<Rightarrow> string \<Rightarrow> MainWindow \<Rightarrow> outcome \<times> MainWindow" where
  "attemptPasswordAndLoadArchive w answer archivePath s =
     (case passwordCache s archivePath of
        Some cpw \<Rightarrow>
          (case setPasswordAndList w cpw s of
             (entries, s1) \<Rightarrow>
               if entries \<noteq> [] then (Resolved cpw, loadArchiveEntries w entries archivePath s1)
               else tryGlobalThenPrompt w answer archivePath s1)
      | None \<Rightarrow> tryGlobalThenPrompt w answer archivePath s)"

text \<open>\<open>onOpenArchive\<close>, with the file chosen in the dialog as an argument.\<close>

definition onOpenArchive :: "world \<Rightarrow> string \<Rightarrow> string \<times> bool \<Rightarrow> MainWindow \<Rightarrow> MainWindow" where
  "onOpenArchive w file answer s =
     (if file = [] then s
      else case openArchive w file (backend s) of
        (opened, h) \<Rightarrow>
          if \<not> opened
          then logEv [Warning ''Open failed'' (''Could not open archive: '' @ file)]
                 (s\<lparr>backend := h\<rparr>)
          else snd (attemptPasswordAndLoadArchive w answer file
                      (s\<lparr>backend := h, currentArchive := file\<rparr>)))"

text \<open>\<open>backend->setPassword(pw); backend->extractEntryToTemp(entry, outTmp)\<close>\<close>

definition setPasswordAndExtract ::
  "world \<Rightarrow> string \<Rightarrow> string \<Rightarrow> MainWindow \<Rightarrow> string option \<times> MainWindow" where
  "setPasswordAndExtract w pw entry s =
     (let h = setPassword pw (backend s)
      in (extractEntryToTemp w h entry,
          logEv [Run ''unzip'' (extractArgs w h entry)] (s\<lparr>backend := h\<rparr>)))"

fun tryGlobalExtract ::
  "world \<Rightarrow> string \<Rightarrow> string list \<Rightarrow> MainWindow \<Rightarrow> string option \<times> MainWindow" where
  "tryGlobalExtract w entry [] s = (None, s)"
| "tryGlobalExtract w entry (pw # pws) s =
     (case setPasswordAndExtract w pw entry s of
        (Some tmp, s1) \<Rightarrow> (Some tmp, s1)
      | (None, s1) \<Rightarrow> tryGlobalExtract w entry pws s1)"

definition tryPasswordsForEntryAndExtract ::
  "world \<Rightarrow> string \<Rightarrow> MainWindow \<Rightarrow> string option \<times> MainWindow" where
  "tryPasswordsForEntryAndExtract w entry s =
     (let apath = m_archive (backend s)
      in case passwordCache s apath of
           Some cpw \<Rightarrow>
             (case setPasswordAndExtract w cpw entry s of
                (Some tmp, s1) \<Rightarrow> (Some tmp, s1)
              | (None, s1) \<Rightarrow> tryGlobalExtract w entry (globalPasswords s1) s1)
         | None \<Rightarrow> tryGlobalExtract w entry (globalPasswords s) s)"

text \<open>
  The block that opens the extracted archive \<open>tmp\<close>, which \<open>onArchiveDoubleClicked\<close>
  and \<open>promptPasswordForArchiveAndLoad\<close> both hold: a new handler is opened on \<open>tmp\<close>;
  when that succeeds the stack is pushed, the old backend deleted, the new one put in its
  place and listed, the model cleared and populated, and the manifest loaded.
\<close>

definition openNested :: "world \<Rightarrow> string \<Rightarrow> string \<Rightarrow> MainWindow \<Rightarrow> MainWindow" where
  "openNested w tmp entry s =
     (case openArchive w tmp newHandler of
        (opened, nested) \<Rightarrow>
          if opened then
            s\<lparr>archiveStack := archiveStack s @ [fileName (currentArchive s) @ '':'' @ entry],
              backend := nested,
              currentArchive := tmp,
              root := populateModel (listEntries w nested []) [] None (clear (root s)),
              trace := trace s @ [Delete (backend s), Run ''unzip'' (listArgs nested)]
                         @ snd (loadMetadata w nested)\<rparr>
          else s)"

definition promptPasswordForArchiveAndLoad ::
  "world \<Rightarrow> string \<times> bool \<Rightarrow> string \<Rightarrow> MainWindow \<Rightarrow> MainWindow" where
  "promptPasswordForArchiveAndLoad w answer entryInCurrent s =
     (let s1 = logEv [Prompt ''Password Required''
                        (''Enter password to extract '' @ entryInCurrent)] s;
          pw = fst answer; ok = snd answer
      in if \<not> ok \<or> pw = [] then s1
         else case setPasswordAndExtract w pw entryInCurrent s1 of
           (Some tmp, s2) \<Rightarrow>
             openNested w tmp entryInCurrent
               (s2\<lparr>passwordCache := (passwordCache s2)(m_archive (backend s2) \<mapsto> pw),
                   globalPasswords :=
                     (if pw \<notin> set (globalPasswords s2)
                      then globalPasswords s2 @ [pw] else globalPasswords s2)\<rparr>)
         | (None, s2) \<Rightarrow>
             logEv [Warning ''Extract Failed''
                      ''Could not extract nested archive with provided password.''] s2)"

text \<open>
  \<open>onArchiveDoubleClicked\<close> on the item \<open>it\<close> of a valid index (\<open>None\<close> is an index
  that is not valid). The preview of a file is a widget and is left out.
\<close>

definition onArchiveDoubleClicked ::
  "world \<Rightarrow> string \<times> bool \<Rightarrow> ArchiveItem option \<Rightarrow> MainWindow \<Rightarrow> MainWindow" where
  "onArchiveDoubleClicked w answer idx s =
     (case idx of
        None \<Rightarrow> s
      | Some it \<Rightarrow>
          let entry = fullPathInArchive it;
              s1 = logEv [Run ''unzip'' (extractArgs w (backend s) entry)] s
          in if type it = ArchiveFolder then
               (case extractEntryToTemp w (backend s) entry of
                  Some tmp \<Rightarrow> openNested w tmp entry s1
                | None \<Rightarrow>
                    (case tryPasswordsForEntryAndExtract w entry s1 of
                       (Some tmp, s2) \<Rightarrow> openNested w tmp entry s2
                     | (None, s2) \<Rightarrow> promptPasswordForArchiveAndLoad w answer entry s2))
             else s1)"

section \<open>Properties of the tree\<close>

text \<open>
  \<open>ext a b\<close>: the node \<open>b\<close> is the node \<open>a\<close> with nodes added. Both have the same
  name, type, path and flag, and the children of \<open>a\<close> are, in their order, the first
  children of \<open>b\<close>, each one extended in the same way.
\<close>

fun ext :: "ArchiveItem \<Rightarrow> ArchiveItem \<Rightarrow> bool"
  and exts :: "ArchiveItem list \<Rightarrow> ArchiveItem list \<Rightarrow> bool" where
  "ext (ArchiveItem n t cs fp pop) (ArchiveItem n' t' cs' fp' pop') =
     (n = n' \<and> t = t' \<and> fp = fp' \<and> pop = pop' \<and> exts cs cs')"
| "exts [] cs' = True"
| "exts (c # cs) [] = False"
| "exts (c # cs) (c' # cs') = (ext c c' \<and> exts cs cs')"

text \<open>
  \<open>entryParts prefix e\<close> is the list \<open>parts\<close> that \<open>populateFromList\<close> computes for
  the entry \<open>e\<close>. \<open>hasPath parts chs\<close>: the walk along \<open>parts\<close> finds every segment
  below the children \<open>chs\<close>. \<open>covered prefix e n\<close>: the entry is skipped, or all its
  segments are found below \<open>n\<close>.
\<close>

definition entryParts :: "string \<Rightarrow> string \<Rightarrow> string list" where
  "entryParts prefix e = splitSkipEmpty (if prefix = [] then e else mid e (length prefix))"

fun hasPath :: "string list \<Rightarrow> ArchiveItem list \<Rightarrow> bool" where
  "hasPath [] chs = True"
| "hasPath (p # ps) [] = False"
| "hasPath (p # ps) (ch # chs) =
     (if name ch = p then hasPath ps (children ch) else hasPath (p # ps) chs)"

definition covered :: "string \<Rightarrow> string \<Rightarrow> ArchiveItem \<Rightarrow> bool" where
  "covered prefix e n =
     ((prefix \<noteq> [] \<and> \<not> startsWith e prefix) \<or> hasPath (entryParts prefix e) (children n))"

text \<open>Below every node the names of the children are distinct.\<close>

fun distinctNames :: "ArchiveItem \<Rightarrow> bool" where
  "distinctNames (ArchiveItem n t cs fp pop) =
     (distinct (map name cs) \<and> list_all distinctNames cs)"

text \<open>
  \<open>joinPath p n\<close> is the path of a node named \<open>n\<close> below a node of path \<open>p\<close>, as
  \<open>populateFromList\<close> and the folder dialog compute it: no separator after the empty
  path. \<open>pathsFrom p a\<close>: the node \<open>a\<close>, below a node of path \<open>p\<close>, and every node
  below \<open>a\<close> has the joined path. \<open>firstSegmentNew prefix e n\<close>: no child of \<open>n\<close> has
  the name of the first segment of \<open>e\<close>.
\<close>

definition joinPath :: "string \<Rightarrow> string \<Rightarrow> string" where
  "joinPath p n = (if p = [] then n else p @ ''/'' @ n)"

fun pathsFrom :: "string \<Rightarrow> ArchiveItem \<Rightarrow> bool" where
  "pathsFrom p (ArchiveItem n t cs fp pop) =
     (fp = joinPath p n \<and> list_all (pathsFrom fp) cs)"

definition firstSegmentNew :: "string \<Rightarrow> string \<Rightarrow> ArchiveItem \<Rightarrow> bool" where
  "firstSegmentNew prefix e n =
     (case entryParts prefix e of [] \<Rightarrow> True | p # ps \<Rightarrow> findChild p (children n) = None)"

text \<open>
  The classification rule in the words of the specification: a folder when the segment
  is not the last one or the entry ends with a slash, else a nested archive when the name
  ends with the reserved suffix, whatever the case of its letters, else a file.
\<close>

definition classify :: "bool \<Rightarrow> bool \<Rightarrow> string \<Rightarrow> NodeType" where
  "classify lastSegment trailingSlash nm =
     (if \<not> lastSegment \<or> trailingSlash then Folder
      else if endsWithCI nm ''.vfsarc'' then ArchiveFolder else File)"

text \<open>A node with the children \<open>chs\<close>, for a search that starts at these children.\<close>

definition under :: "ArchiveItem list \<Rightarrow> ArchiveItem" where
  "under chs = ArchiveItem [] Folder chs [] False"

section \<open>Properties of the session\<close>

text \<open>
  \<open>sameSession s s'\<close>: from \<open>s\<close> to \<open>s'\<close> the cache, the pool, the stack, the current
  archive, the tree and the archive of the backend are the same; the password of the
  backend and the trace may differ.
\<close>

definition sameSession :: "MainWindow \<Rightarrow> MainWindow \<Rightarrow> bool" where
  "sameSession s s' =
     (passwordCache s' = passwordCache s \<and> globalPasswords s' = globalPasswords s \<and>
      archiveStack s' = archiveStack s \<and> currentArchive s' = currentArchive s \<and>
      root s' = root s \<and> m_archive (backend s') = m_archive (backend s))"

text \<open>
  \<open>grows s s'\<close>: the trace of \<open>s'\<close> is the trace of \<open>s\<close> with events after it.
  \<open>isPrompt\<close> tells the password dialogs among the events.
\<close>

definition grows :: "MainWindow \<Rightarrow> MainWindow \<Rightarrow> bool" where
  "grows s s' = (\<exists>evs. trace s' = trace s @ evs)"

definition isPrompt :: "event \<Rightarrow> bool" where
  "isPrompt ev = (case ev of Prompt title label \<Rightarrow> True | _ \<Rightarrow> False)"




text \<open>
  \<open>descended w entry tmp s s'\<close>: from \<open>s\<close> to \<open>s'\<close> the nested archive \<open>entry\<close>,
  extracted to \<open>tmp\<close>, was entered. The backend is a new handler on \<open>tmp\<close>, with no
  password; one frame, the file name of the archive that was current, a colon and the
  entry, is pushed on the stack; among the new events a handler on the archive of the old
  backend is deleted; the tree is the cleared model populated from the whole listing of
  the new backend.
\<close>

definition descended :: "world \<Rightarrow> string \<Rightarrow> string \<Rightarrow> MainWindow \<Rightarrow> MainWindow \<Rightarrow> bool" where
  "descended w entry tmp s s' =
     (backend s' = \<lparr>m_archive = tmp, m_password = []\<rparr> \<and>
      currentArchive s' = tmp \<and>
      archiveStack s' = archiveStack s @ [fileName (currentArchive s) @ '':'' @ entry] \<and>
      list_ex (\<lambda>ev. case ev of Delete h \<Rightarrow> m_archive h = m_archive (backend s) | _ \<Rightarrow> False)
        (drop (length (trace s)) (trace s')) \<and>
      root s' = populateFromList (listEntries w (backend s') []) [] (clear (root s)))"

section \<open>Sessions for the examples\<close>

text \<open>
  In \<open>lockedWorld\<close> a run of \<open>unzip\<close> succeeds with the password \<open>y\<close> and with no
  other. In \<open>openWorld\<close> every run succeeds, the archive \<open>A.vfsarc\<close> lists one nested
  archive and every other archive one file. \<open>staleWorld\<close> is \<open>openWorld\<close> where no
  file but \<open>A.vfsarc\<close> exists: \<open>unzip\<close> reports success and the file it should have
  written is not there.
\<close>

definition lockedWorld :: world where
  "lockedWorld =
     \<lparr>exitCode = (\<lambda>prog args. if prog = ''unzip'' \<and> take 2 args = [''-P'', ''y''] then 0 else 1),
      stdoutLines = (\<lambda>prog args. if prog = ''unzip'' \<and> take 2 args = [''-P'', ''y'']
                                   then [''folder/inner.vfsarc''] else []),
      fileExists = (\<lambda>p. True),
      persistentTmp = ''/tmp/qt_arch_tmp_1'',
      filePath = (\<lambda>dir f. dir @ ''/'' @ f),
      tmpFileName = ''/tmp/qt_temp.1'',
      currentDateTime = ''2024-01-01T00:00:00'',
      readObject = (\<lambda>p. None)\<rparr>"

definition openWorld :: world where
  "openWorld =
     \<lparr>exitCode = (\<lambda>prog args. 0),
      stdoutLines = (\<lambda>prog args. if args = [''-Z'', ''-1'', ''/home/u/A.vfsarc'']
                                   then [''folder/inner.vfsarc''] else [''x.txt'']),
      fileExists = (\<lambda>p. True),
      persistentTmp = ''/tmp/qt_arch_tmp_1'',
      filePath = (\<lambda>dir f. dir @ ''/'' @ f),
      tmpFileName = ''/tmp/qt_temp.1'',
      currentDateTime = ''2024-01-01T00:00:00'',
      readObject = (\<lambda>p. Some [(''version'', JString ''1.0'')])\<rparr>"

definition staleWorld :: world where
  "staleWorld = openWorld\<lparr>fileExists := (\<lambda>p. p = ''/home/u/A.vfsarc'')\<rparr>"

text \<open>
  In \<open>sessionWorld\<close> the listing of \<open>X.vfsarc\<close> needs the password \<open>x\<close>, every run
  of \<open>unzip\<close> with the password \<open>y\<close> succeeds, and the nested archive extracted from
  \<open>Y.vfsarc\<close> is listed with no password and holds the archive \<open>deep.vfsarc\<close>, which
  is extracted with \<open>y\<close> only.
\<close>

definition sessionWorld :: world where
  "sessionWorld =
     \<lparr>exitCode = (\<lambda>prog args. if prog = ''unzip'' \<and> take 2 args = [''-P'', ''y''] then 0 else 1),
      stdoutLines = (\<lambda>prog args.
         if args = [''-P'', ''x'', ''-Z'', ''-1'', ''/home/u/X.vfsarc''] then [''a.txt'']
         else if take 2 args = [''-P'', ''y''] then [''folder/inner.vfsarc'']
         else if args = [''-Z'', ''-1'', ''/tmp/qt_arch_tmp_1/folder/inner.vfsarc'']
         then [''deep.vfsarc'']
         else []),
      fileExists = (\<lambda>p. True),
      persistentTmp = ''/tmp/qt_arch_tmp_1'',
      filePath = (\<lambda>dir f. dir @ ''/'' @ f),
      tmpFileName = ''/tmp/qt_temp.1'',
      currentDateTime = ''2024-01-01T00:00:00'',
      readObject = (\<lambda>p. None)\<rparr>"

text \<open>
  \<open>openedState\<close> is the session after \<open>A.vfsarc\<close> was opened in \<open>openWorld\<close> with
  the empty password, and \<open>innerItem\<close> the item of the nested archive in its tree.
  \<open>pooledSession\<close> is the session after \<open>X.vfsarc\<close> was opened with the password \<open>x\<close>
  and then \<open>Y.vfsarc\<close> with \<open>y\<close>, both given in the dialog; \<open>nestedSession\<close> is
  that session after the double click on the nested archive of \<open>Y.vfsarc\<close>, and
  \<open>deepItem\<close> the item of \<open>deep.vfsarc\<close> in its tree. \<open>xState\<close> is a session that
  has just bound its backend to \<open>A.vfsarc\<close>, with the pool \<open>x\<close>.
\<close>

definition innerItem :: ArchiveItem where
  "innerItem = ArchiveItem ''inner.vfsarc'' ArchiveFolder [] ''folder/inner.vfsarc'' False"

definition openedState :: MainWindow where
  "openedState = onOpenArchive openWorld ''/home/u/A.vfsarc'' ([], True) initWindow"

definition pooledSession :: MainWindow where
  "pooledSession =
     onOpenArchive sessionWorld ''/home/u/Y.vfsarc'' (''y'', True)
       (onOpenArchive sessionWorld ''/home/u/X.vfsarc'' (''x'', True) initWindow)"

definition nestedSession :: MainWindow where
  "nestedSession = onArchiveDoubleClicked sessionWorld ([], False) (Some innerItem) pooledSession"

definition deepItem :: ArchiveItem where
  "deepItem = ArchiveItem ''deep.vfsarc'' ArchiveFolder [] ''deep.vfsarc'' False"

definition lockedHandler :: CliArchiveHandler where
  "lockedHandler = \<lparr>m_archive = ''/home/u/A.vfsarc'', m_password = []\<rparr>"

definition xState :: MainWindow where
  "xState =
     initWindow\<lparr>backend := \<lparr>m_archive = ''/home/u/A.vfsarc'', m_password = []\<rparr>,
                currentArchive := ''/home/u/A.vfsarc'',
                globalPasswords := [''x'']\<rparr>"


section \<open>Existing nodes are kept\<close>

lemma ext_sel: "ext a b = (name a = name b \<and> type a = type b \<and>
   fullPathInArchive a = fullPathInArchive b \<and> childrenPopulated a = childrenPopulated b \<and>
   exts (children a) (children b))"
  by (cases a; cases b) simp

lemma setChildren_sel [simp]:
  "name (setChildren a cs) = name a" "type (setChildren a cs) = type a"
  "children (setChildren a cs) = cs"
  "fullPathInArchive (setChildren a cs) = fullPathInArchive a"
  "childrenPopulated (setChildren a cs) = childrenPopulated a"
  by (simp_all add: setChildren_def)

lemma setChildren_children [simp]: "setChildren a (children a) = a"
  by (cases a) (simp add: setChildren_def)

lemma exts_refl_if: "(\<And>c. c \<in> set cs \<Longrightarrow> ext c c) \<Longrightarrow> exts cs cs"
  by (induction cs) auto

lemma ext_refl: "ext a a"
  by (induction a) (auto intro: exts_refl_if)

lemma exts_refl: "exts cs cs"
  by (rule exts_refl_if) (rule ext_refl)

lemma exts_trans_if:
  "(\<And>x y z. x \<in> set xs \<Longrightarrow> ext x y \<Longrightarrow> ext y z \<Longrightarrow> ext x z) \<Longrightarrow>
   exts xs ys \<Longrightarrow> exts ys zs \<Longrightarrow> exts xs zs"
proof (induction xs arbitrary: ys zs)
  case Nil
  then show ?case by simp
next
  case (Cons x xs)
  from Cons.prems(2) obtain y ys' where ys: "ys = y # ys'" by (cases ys) auto
  from Cons.prems(3) ys obtain z zs' where zs: "zs = z # zs'" by (cases zs) auto
  from Cons.prems ys zs have "ext x z" by auto
  moreover have "exts xs zs'"
    using Cons.IH[of ys' zs'] Cons.prems ys zs by auto
  ultimately show ?case using zs by simp
qed

lemma ext_trans: "ext a b \<Longrightarrow> ext b c \<Longrightarrow> ext a c"
proof (induction a arbitrary: b c)
  case (ArchiveItem n t cs fp pop)
  have ab: "exts cs (children b)" using ArchiveItem.prems(1) by (cases b) simp
  have bc: "exts (children b) (children c)" using ArchiveItem.prems(2) by (cases b; cases c) simp
  have "exts cs (children c)"
    by (rule exts_trans_if[OF _ ab bc]) (rule ArchiveItem.IH)
  then show ?case using ArchiveItem.prems by (cases b; cases c) simp
qed

lemma ext_setChildren: "exts (children a) cs \<Longrightarrow> ext a (setChildren a cs)"
  by (cases a) (simp add: setChildren_def)

lemma exts_walkParts: "exts chs (walkParts e parts accum chs)"
proof (induction e parts accum chs rule: walkParts.induct)
  case (1 e accum chs)
  show ?case by (simp add: exts_refl)
next
  case (2 e part rest accum)
  show ?case by simp
next
  case (3 e part rest accum ch chs)
  show ?case
  proof (cases "name ch = part")
    case True
    with 3 show ?thesis by (simp add: ext_setChildren exts_refl)
  next
    case False
    with 3 show ?thesis by (simp add: ext_refl)
  qed
qed

lemma ext_populateEntry: "ext n (populateEntry prefix e n)"
  by (simp add: populateEntry_def ext_setChildren exts_walkParts ext_refl Let_def)

lemma ext_populateFromList: "ext n (populateFromList entries prefix n)"
  unfolding populateFromList_def
proof (induction entries arbitrary: n)
  case Nil
  then show ?case by (simp add: ext_refl)
next
  case (Cons e es)
  show ?case
    using ext_trans[OF ext_populateEntry[of n prefix e] Cons.IH[of "populateEntry prefix e n"]]
    by simp
qed

lemma exts_update: "k < length cs \<Longrightarrow> ext (cs ! k) c \<Longrightarrow> exts cs (cs[k := c])"
proof (induction cs arbitrary: k)
  case Nil
  then show ?case by simp
next
  case (Cons a cs)
  then show ?case by (cases k) (auto simp: ext_refl exts_refl)
qed

lemma ext_modifyAt: "(\<And>n. ext n (f n)) \<Longrightarrow> ext r (modifyAt ks f r)"
proof (induction ks arbitrary: r)
  case Nil
  then show ?case by simp
next
  case (Cons k ks)
  show ?case
  proof (cases "k < length (children r)")
    case True
    have "ext (children r ! k) (modifyAt ks f (children r ! k))"
      by (rule Cons.IH) (rule Cons.prems)
    with True show ?thesis by (simp add: ext_setChildren exts_update)
  next
    case False
    then show ?thesis by (simp add: ext_refl)
  qed
qed

lemma ext_populateModel: "ext r (populateModel entries prefix parentNode r)"
  unfolding populateModel_def by (rule ext_modifyAt) (rule ext_populateFromList)

text \<open>
  C10. \<open>populateFromList\<close> changes no node that is there: after the call, on the node
  \<open>parentNode\<close> points to or on the model, every node of the old tree is at its place
  with its name, type, path and flag, and the new nodes come after the old children.
\<close>

theorem populate_extends_tree:
  "ext n (populateFromList entries prefix n) \<and>
   ext r (populateModel entries prefix parentNode r)"
  by (simp add: ext_populateFromList ext_populateModel)

text \<open>
  A name that comes back in another shape: \<open>a\<close> is made as a file, and stays one when
  it is walked through as a directory and when it is listed with a slash.
\<close>

lemma populate_keeps_kind_example:
  "children (populateModel [''a'', ''a/b'', ''a/''] [] None root0)
     = [ArchiveItem ''a'' File [ArchiveItem ''b'' File [] ''b'' False] ''a'' False]"
  by code_simp

section \<open>Idempotence\<close>

lemma walkParts_hasPath_id: "hasPath parts chs \<Longrightarrow> walkParts e parts accum chs = chs"
  by (induction e parts accum chs rule: walkParts.induct) (auto split: if_splits)

lemma hasPath_walkParts_self: "hasPath parts (walkParts e parts accum chs)"
  by (induction e parts accum chs rule: walkParts.induct) (auto simp: Let_def)

lemma hasPath_walkParts_mono:
  "hasPath ps chs \<Longrightarrow> hasPath ps (walkParts e qs accum chs)"
proof (induction e qs accum chs arbitrary: ps rule: walkParts.induct)
  case (1 e accum chs)
  then show ?case by simp
next
  case (2 e part rest accum)
  then show ?case by (cases ps) auto
next
  case (3 e part rest accum ch chs)
  show ?case
  proof (cases ps)
    case Nil
    then show ?thesis by simp
  next
    case (Cons p ps')
    show ?thesis
    proof (cases "name ch = part")
      case True
      with 3 Cons show ?thesis by (auto split: if_splits)
    next
      case False
      with 3 Cons show ?thesis by (auto split: if_splits)
    qed
  qed
qed

lemma populateEntry_covered_id: "covered prefix e n \<Longrightarrow> populateEntry prefix e n = n"
  by (auto simp: covered_def populateEntry_def entryParts_def walkParts_hasPath_id)

lemma covered_populateEntry_self: "covered prefix e (populateEntry prefix e n)"
  by (simp add: covered_def populateEntry_def entryParts_def hasPath_walkParts_self)

lemma covered_populateEntry_mono:
  "covered prefix e n \<Longrightarrow> covered prefix e (populateEntry prefix e' n)"
  by (auto simp: covered_def populateEntry_def entryParts_def hasPath_walkParts_mono)

lemma covered_foldl_mono:
  "covered prefix e n \<Longrightarrow> covered prefix e (foldl (\<lambda>n e. populateEntry prefix e n) n es)"
  by (induction es arbitrary: n) (auto simp: covered_populateEntry_mono)

lemma covered_populateFromList:
  "e \<in> set es \<Longrightarrow> covered prefix e (populateFromList es prefix n)"
  unfolding populateFromList_def
proof (induction es arbitrary: n)
  case Nil
  then show ?case by simp
next
  case (Cons a es)
  show ?case
  proof (cases "e = a")
    case True
    then show ?thesis
      by (simp add: covered_foldl_mono covered_populateEntry_self)
  next
    case False
    with Cons show ?thesis by simp
  qed
qed

lemma populateFromList_covered_id:
  "(\<And>e. e \<in> set es \<Longrightarrow> covered prefix e n) \<Longrightarrow> populateFromList es prefix n = n"
  unfolding populateFromList_def
  by (induction es) (auto simp: populateEntry_covered_id)

lemma populateFromList_idem:
  "populateFromList es prefix (populateFromList es prefix n) = populateFromList es prefix n"
  by (rule populateFromList_covered_id) (rule covered_populateFromList)

lemma setChildren_twice [simp]: "setChildren (setChildren a cs) cs' = setChildren a cs'"
  by (simp add: setChildren_def)

lemma modifyAt_twice: "modifyAt ks f (modifyAt ks f r) = modifyAt ks (\<lambda>n. f (f n)) r"
  by (induction ks arbitrary: r) auto

lemma populateModel_idem:
  "populateModel es prefix pn (populateModel es prefix pn r) = populateModel es prefix pn r"
  by (simp add: populateModel_def modifyAt_twice populateFromList_idem)

text \<open>
  C5. A second run of \<open>populateFromList\<close> with the same entries and prefix, on the same
  node, leaves the tree of the first run as it is.
\<close>

theorem populateFromList_idempotent:
  "populateFromList es prefix (populateFromList es prefix n) = populateFromList es prefix n \<and>
   populateModel es prefix parentNode (populateModel es prefix parentNode r)
     = populateModel es prefix parentNode r"
  by (simp add: populateFromList_idem populateModel_idem)

section \<open>Names and paths\<close>

lemma distinctNames_sel:
  "distinctNames a = (distinct (map name (children a)) \<and> list_all distinctNames (children a))"
  by (cases a) simp

lemma names_walkParts:
  "set (map name (walkParts e (part # rest) accum chs)) = insert part (set (map name chs))"
  by (induction chs) (auto simp: Let_def)

lemma distinct_walkParts:
  "distinct (map name chs) \<Longrightarrow> list_all distinctNames chs \<Longrightarrow>
   distinct (map name (walkParts e parts accum chs)) \<and>
   list_all distinctNames (walkParts e parts accum chs)"
proof (induction e parts accum chs rule: walkParts.induct)
  case (1 e accum chs)
  then show ?case by simp
next
  case (2 e part rest accum)
  then show ?case by (simp add: Let_def)
next
  case (3 e part rest accum ch chs)
  show ?case
  proof (cases "name ch = part")
    case True
    have "distinct (map name (children ch))" "list_all distinctNames (children ch)"
      using "3.prems" by (simp_all add: distinctNames_sel[of ch])
    with 3 True show ?thesis by (simp add: distinctNames_sel[of "setChildren ch _"])
  next
    case False
    have "name ch \<notin> set (map name (walkParts e (part # rest) accum chs))"
      using "3.prems" False unfolding names_walkParts by auto
    with 3 False show ?thesis by simp
  qed
qed

lemma distinctNames_populateEntry:
  "distinctNames n \<Longrightarrow> distinctNames (populateEntry prefix e n)"
  using distinct_walkParts[of "children n"]
  by (simp add: populateEntry_def Let_def distinctNames_sel[of n] distinctNames_sel[of "setChildren n _"])

lemma distinctNames_populateFromList:
  "distinctNames n \<Longrightarrow> distinctNames (populateFromList es prefix n)"
  unfolding populateFromList_def
  by (induction es arbitrary: n) (auto simp: distinctNames_populateEntry)

lemma distinctNames_update:
  "distinct (map name cs) \<Longrightarrow> list_all distinctNames cs \<Longrightarrow> k < length cs \<Longrightarrow>
   name c = name (cs ! k) \<Longrightarrow> distinctNames c \<Longrightarrow>
   distinct (map name (cs[k := c])) \<and> list_all distinctNames (cs[k := c])"
proof (induction cs arbitrary: k)
  case Nil
  then show ?case by simp
next
  case (Cons a cs)
  show ?case
  proof (cases k)
    case 0
    with Cons.prems show ?thesis by simp
  next
    case (Suc j)
    have "name a \<notin> set (map name (cs[j := c]))"
    proof
      assume "name a \<in> set (map name (cs[j := c]))"
      then have "name a \<in> set (map name cs)"
        using Cons.prems Suc
        by (auto simp: map_update dest!: subsetD[OF set_update_subset_insert] )
      with Cons.prems show False by simp
    qed
    with Cons Suc show ?thesis by simp
  qed
qed

lemma name_modifyAt: "(\<And>n. name (f n) = name n) \<Longrightarrow> name (modifyAt ks f r) = name r"
  by (cases ks) auto

lemma distinctNames_modifyAt:
  "(\<And>n. distinctNames n \<Longrightarrow> distinctNames (f n)) \<Longrightarrow> (\<And>n. name (f n) = name n) \<Longrightarrow>
   distinctNames r \<Longrightarrow> distinctNames (modifyAt ks f r)"
proof (induction ks arbitrary: r)
  case Nil
  then show ?case by simp
next
  case (Cons k ks)
  show ?case
  proof (cases "k < length (children r)")
    case True
    have d: "distinct (map name (children r))" "list_all distinctNames (children r)"
      using Cons.prems(3) by (simp_all add: distinctNames_sel[of r])
    then have "distinctNames (children r ! k)"
      using True by (simp add: list_all_length)
    then have "distinctNames (modifyAt ks f (children r ! k))"
      by (intro Cons.IH Cons.prems) 
    moreover have "name (modifyAt ks f (children r ! k)) = name (children r ! k)"
      by (rule name_modifyAt) (rule Cons.prems)
    ultimately show ?thesis
      using distinctNames_update[OF d True] True
      by (simp add: distinctNames_sel[of "setChildren r _"])
  next
    case False
    with Cons.prems show ?thesis by simp
  qed
qed

lemma name_populateFromList: "name (populateFromList es prefix n) = name n"
  using ext_populateFromList[of n es prefix] by (simp add: ext_sel)

lemma reachable_distinctNames: "reachable r \<Longrightarrow> distinctNames r"
proof (induction rule: reachable.induct)
  case reachable_root
  show ?case by (simp add: root0_def)
next
  case (reachable_populate r entries prefix parentNode)
  then show ?case
    unfolding populateModel_def
    by (intro distinctNames_modifyAt distinctNames_populateFromList name_populateFromList)
qed

lemma pathsFrom_sel:
  "pathsFrom p a = (fullPathInArchive a = joinPath p (name a) \<and>
                    list_all (pathsFrom (fullPathInArchive a)) (children a))"
  by (cases a) simp

lemma pathsFrom_fresh: "list_all (pathsFrom accum) (walkParts e parts accum [])"
  by (induction parts arbitrary: accum) (auto simp: Let_def joinPath_def)

lemma pathsFrom_new_segment:
  "list_all (pathsFrom accum) chs \<Longrightarrow> findChild part chs = None \<Longrightarrow>
   list_all (pathsFrom accum) (walkParts e (part # rest) accum chs)"
proof (induction chs)
  case Nil
  show ?case using pathsFrom_fresh[of accum e "part # rest"] by simp
next
  case (Cons ch chs)
  then show ?case by (auto split: if_splits)
qed

lemma pathsFrom_populateEntry:
  "list_all (pathsFrom prefix) (children n) \<Longrightarrow> firstSegmentNew prefix e n \<Longrightarrow>
   list_all (pathsFrom prefix) (children (populateEntry prefix e n))"
  by (auto simp: populateEntry_def firstSegmentNew_def entryParts_def Let_def
        pathsFrom_new_segment split: list.splits)

text \<open>
  C1, as the claim states it, fails at the first node below the root: the path of the
  root is empty and the path of the node is its name, with no slash before it.
\<close>

theorem top_level_path_is_name:
  "reachable (populateModel [''a''] [] None root0) \<and>
   fullPathInArchive (hd (children (populateModel [''a''] [] None root0)))
     \<noteq> fullPathInArchive (populateModel [''a''] [] None root0) @ ''/''
         @ name (hd (children (populateModel [''a''] [] None root0)))"
proof
  show "reachable (populateModel [''a''] [] None root0)" by (rule reachable.intros)+
  show "fullPathInArchive (hd (children (populateModel [''a''] [] None root0)))
     \<noteq> fullPathInArchive (populateModel [''a''] [] None root0) @ ''/''
         @ name (hd (children (populateModel [''a''] [] None root0)))" by code_simp
qed

text \<open>
  C1, amended. In every tree that calls of \<open>populateFromList\<close> make from the empty
  model, the children of a node have distinct names. When in such a tree the path of
  every node is its name below the root, and the path of its parent, a slash and its name
  below another node, it is so again after an entry of the whole archive is materialized
  whose first segment is new below the root, or whose segments are all there.
\<close>

theorem populate_names_distinct_paths_joined:
  "reachable r \<Longrightarrow>
   distinctNames r \<and>
   (list_all (pathsFrom []) (children r) \<and> (firstSegmentNew [] e r \<or> covered [] e r) \<longrightarrow>
      list_all (pathsFrom []) (children (populateModel [e] [] None r)))"
  using reachable_distinctNames[of r] pathsFrom_populateEntry[of "[]" r e]
    populateEntry_covered_id[of "[]" e r]
  by (auto simp: populateModel_def populateFromList_def)

theorem populate_names_distinct_paths_joined_witness:
  "reachable (populateModel [''a/b.txt''] [] None root0) \<and>
   distinctNames (populateModel [''a/b.txt''] [] None root0) \<and>
   list_all (pathsFrom []) (children (populateModel [''a/b.txt''] [] None root0)) \<and>
   firstSegmentNew [] ''c/d.txt'' (populateModel [''a/b.txt''] [] None root0) \<and>
   list_all (pathsFrom [])
     (children (populateModel [''c/d.txt''] [] None (populateModel [''a/b.txt''] [] None root0)))"
proof -
  have r: "reachable (populateModel [''a/b.txt''] [] None root0)" by (rule reachable.intros)+
  have p: "list_all (pathsFrom []) (children (populateModel [''a/b.txt''] [] None root0))"
    by code_simp
  have f: "firstSegmentNew [] ''c/d.txt'' (populateModel [''a/b.txt''] [] None root0)"
    by code_simp
  from populate_names_distinct_paths_joined[OF r, of "''c/d.txt''"] r p f
  show ?thesis by blast
qed

section \<open>Classification\<close>

lemma findNodeByParts_children:
  "ps \<noteq> [] \<Longrightarrow> children n = children m \<Longrightarrow> findNodeByParts ps n = findNodeByParts ps m"
  by (cases ps) auto

lemma created_classified_aux:
  "i < length parts \<Longrightarrow> findNodeByParts (take (Suc i) parts) (under chs) = None \<Longrightarrow>
   \<exists>c. findNodeByParts (take (Suc i) parts) (under (walkParts e parts accum chs)) = Some c \<and>
       name c = parts ! i \<and>
       type c = classify (Suc i = length parts) (endsWith e ''/'') (parts ! i)"
proof (induction e parts accum chs arbitrary: i rule: walkParts.induct)
  case (1 e accum chs)
  then show ?case by simp
next
  case (2 e part rest accum)
  show ?case
  proof (cases i)
    case 0
    then show ?thesis by (auto simp: under_def Let_def classify_def)
  next
    case (Suc j)
    define accum' where "accum' = (if accum = [] then part else accum @ ''/'' @ part)"
    define ty where "ty = (if rest \<noteq> [] \<or> endsWith e ''/'' then Folder
                else if endsWithCI part ''.vfsarc'' then ArchiveFolder else File)"
    have j: "j < length rest" using "2.prems" Suc by simp
    then have ne: "take (Suc j) rest \<noteq> []" by auto
    have "findNodeByParts (take (Suc j) rest) (under []) = None"
      using j by (cases rest) (simp_all add: under_def)
    from "2.IH"[OF accum'_def ty_def j this]
    obtain c where c: "findNodeByParts (take (Suc j) rest) (under (walkParts e rest accum' [])) = Some c"
      "name c = rest ! j" "type c = classify (Suc j = length rest) (endsWith e ''/'') (rest ! j)"
      by blast
    have "findNodeByParts (take (Suc j) rest) (ArchiveItem part ty (walkParts e rest accum' []) accum' False)
          = findNodeByParts (take (Suc j) rest) (under (walkParts e rest accum' []))"
      by (rule findNodeByParts_children[OF ne]) (simp add: under_def)
    with c Suc show ?thesis
      by (simp add: under_def Let_def accum'_def ty_def)
  qed
next
  case (3 e part rest accum ch chs)
  show ?case
  proof (cases "name ch = part")
    case True
    show ?thesis
    proof (cases i)
      case 0
      with True "3.prems" show ?thesis by (simp add: under_def)
    next
      case (Suc j)
      have j: "j < length rest" using "3.prems" Suc by simp
      then have ne: "take (Suc j) rest \<noteq> []" by auto
      have "findNodeByParts (take (Suc j) rest) ch = None"
        using "3.prems" Suc True by (simp add: under_def)
      moreover have "findNodeByParts (take (Suc j) rest) ch
          = findNodeByParts (take (Suc j) rest) (under (children ch))"
        by (rule findNodeByParts_children[OF ne]) (simp add: under_def)
      ultimately have "findNodeByParts (take (Suc j) rest) (under (children ch)) = None" by simp
      from "3.IH"(1)[OF True j this]
      obtain c where c: "findNodeByParts (take (Suc j) rest) (under (walkParts e rest accum (children ch))) = Some c"
        "name c = rest ! j" "type c = classify (Suc j = length rest) (endsWith e ''/'') (rest ! j)"
        by blast
      have "findNodeByParts (take (Suc j) rest) (setChildren ch (walkParts e rest accum (children ch)))
          = findNodeByParts (take (Suc j) rest) (under (walkParts e rest accum (children ch)))"
        by (rule findNodeByParts_children[OF ne]) (simp add: under_def)
      with c Suc True show ?thesis by (simp add: under_def)
    qed
  next
    case False
    have "findNodeByParts (take (Suc i) (part # rest)) (under chs) = None"
      using "3.prems" False by (simp add: under_def)
    from "3.IH"(2)[OF False "3.prems"(1) this] False
    show ?thesis by (simp add: under_def)
  qed
qed

lemma created_classified:
  assumes "prefix = [] \<or> startsWith e prefix"
    and "i < length (entryParts prefix e)"
    and "findNodeByParts (take (Suc i) (entryParts prefix e)) n = None"
  shows "\<exists>c. findNodeByParts (take (Suc i) (entryParts prefix e)) (populateEntry prefix e n) = Some c \<and>
       name c = entryParts prefix e ! i \<and>
       type c = classify (Suc i = length (entryParts prefix e)) (endsWith e ''/'') (entryParts prefix e ! i)"
proof -
  let ?ps = "take (Suc i) (entryParts prefix e)"
  have ne: "?ps \<noteq> []" using assms(2) by auto
  have "findNodeByParts ?ps (under (children n)) = findNodeByParts ?ps n"
    by (rule findNodeByParts_children[OF ne]) (simp add: under_def)
  with assms(3) have "findNodeByParts ?ps (under (children n)) = None" by simp
  from created_classified_aux[OF assms(2) this, of e prefix]
  obtain c where c: "findNodeByParts ?ps (under (walkParts e (entryParts prefix e) prefix (children n))) = Some c"
    "name c = entryParts prefix e ! i"
    "type c = classify (Suc i = length (entryParts prefix e)) (endsWith e ''/'') (entryParts prefix e ! i)"
    by blast
  have "findNodeByParts ?ps (populateEntry prefix e n)
      = findNodeByParts ?ps (under (walkParts e (entryParts prefix e) prefix (children n)))"
    using assms(1)
    by (intro findNodeByParts_children[OF ne]) (auto simp: populateEntry_def under_def entryParts_def Let_def)
  with c show ?thesis by simp
qed

text \<open>
  C4. An entry that is not skipped is materialized below \<open>n\<close>. Every segment of it that
  was not found before has a node afterwards, with the name of the segment and the type
  of the classification rule: a folder when the segment is not the last one or the entry
  ends with a slash, else a nested archive when the name ends with \<open>.vfsarc\<close> in any
  case, else a file.
\<close>

theorem created_item_classified:
  "prefix = [] \<or> startsWith e prefix \<Longrightarrow>
   i < length (entryParts prefix e) \<Longrightarrow>
   findNodeByParts (take (Suc i) (entryParts prefix e)) n = None \<Longrightarrow>
   \<exists>c. findNodeByParts (take (Suc i) (entryParts prefix e)) (populateEntry prefix e n) = Some c \<and>
       name c = entryParts prefix e ! i \<and>
       type c = classify (Suc i = length (entryParts prefix e)) (endsWith e ''/'')
                  (entryParts prefix e ! i)"
  by (rule created_classified)

theorem created_item_classified_witness:
  "(\<exists>c. findNodeByParts [''pkg.vfsarc''] (populateEntry [] ''pkg.vfsarc'' root0) = Some c \<and>
        name c = ''pkg.vfsarc'' \<and> type c = ArchiveFolder) \<and>
   (\<exists>c. findNodeByParts [''docs''] (populateEntry [] ''docs/'' root0) = Some c \<and>
        name c = ''docs'' \<and> type c = Folder) \<and>
   (\<exists>c. findNodeByParts [''readme.txt''] (populateEntry [] ''readme.txt'' root0) = Some c \<and>
        name c = ''readme.txt'' \<and> type c = File)"
proof -
  have p1: "entryParts [] ''pkg.vfsarc'' = [''pkg.vfsarc'']"
    and p2: "entryParts [] ''docs/'' = [''docs'']"
    and p3: "entryParts [] ''readme.txt'' = [''readme.txt'']"
    by code_simp+
  have n: "findNodeByParts [s] root0 = None" for s
    by (simp add: root0_def)
  have c1: "classify True (endsWith ''pkg.vfsarc'' ''/'') ''pkg.vfsarc'' = ArchiveFolder"
    and c2: "classify True (endsWith ''docs/'' ''/'') ''docs'' = Folder"
    and c3: "classify True (endsWith ''readme.txt'' ''/'') ''readme.txt'' = File"
    by code_simp+
  from created_item_classified[of "[]" "''pkg.vfsarc''" 0 root0]
  have "\<exists>c. findNodeByParts [''pkg.vfsarc''] (populateEntry [] ''pkg.vfsarc'' root0) = Some c \<and>
        name c = ''pkg.vfsarc'' \<and> type c = ArchiveFolder"
    by (simp add: p1 n c1 del: findNodeByParts.simps)
  moreover from created_item_classified[of "[]" "''docs/''" 0 root0]
  have "\<exists>c. findNodeByParts [''docs''] (populateEntry [] ''docs/'' root0) = Some c \<and>
        name c = ''docs'' \<and> type c = Folder"
    by (simp add: p2 n c2 del: findNodeByParts.simps)
  moreover from created_item_classified[of "[]" "''readme.txt''" 0 root0]
  have "\<exists>c. findNodeByParts [''readme.txt''] (populateEntry [] ''readme.txt'' root0) = Some c \<and>
        name c = ''readme.txt'' \<and> type c = File"
    by (simp add: p3 n c3 del: findNodeByParts.simps)
  ultimately show ?thesis by blast
qed

section \<open>Collecting paths\<close>

lemma foldl_collect:
  assumes "\<And>c out. c \<in> set cs \<Longrightarrow>
             collectPathsRecursively c out = out @ collectPathsRecursively c []"
  shows "foldl (\<lambda>acc ch. collectPathsRecursively ch acc) out' cs
           = out' @ concat (map (\<lambda>ch. collectPathsRecursively ch []) cs)"
  using assms
proof (induction cs arbitrary: out')
  case Nil
  show ?case by simp
next
  case (Cons c cs)
  have a: "collectPathsRecursively c out' = out' @ collectPathsRecursively c []"
    by (rule Cons.prems) simp
  have b: "foldl (\<lambda>acc ch. collectPathsRecursively ch acc) (collectPathsRecursively c out') cs
        = collectPathsRecursively c out' @ concat (map (\<lambda>ch. collectPathsRecursively ch []) cs)"
    by (rule Cons.IH) (rule Cons.prems, simp)
  have "foldl (\<lambda>acc ch. collectPathsRecursively ch acc) out' (c # cs)
      = foldl (\<lambda>acc ch. collectPathsRecursively ch acc) (collectPathsRecursively c out') cs"
    by simp
  also have "\<dots> = collectPathsRecursively c out'
                   @ concat (map (\<lambda>ch. collectPathsRecursively ch []) cs)"
    by (rule b)
  also have "\<dots> = out' @ concat (map (\<lambda>ch. collectPathsRecursively ch []) (c # cs))"
    by (simp add: a)
  finally show ?case .
qed

lemma collect_acc: "collectPathsRecursively node out = out @ collectPathsRecursively node []"
proof (induction node arbitrary: out)
  case (ArchiveItem n t cs fp pop)
  have ih: "\<And>c out. c \<in> set cs \<Longrightarrow>
             collectPathsRecursively c out = out @ collectPathsRecursively c []"
    by (rule ArchiveItem.IH)
  let ?node = "ArchiveItem n t cs fp pop"
  show ?case
  proof (cases "t = File \<or> t = ArchiveFolder")
    case True
    then have "collectPathsRecursively ?node acc = acc @ [fp]" for acc
      by (subst collectPathsRecursively.simps) simp
    then show ?thesis by simp
  next
    case False
    then have "collectPathsRecursively ?node acc
        = acc @ concat (map (\<lambda>ch. collectPathsRecursively ch []) cs)" for acc
      by (subst collectPathsRecursively.simps) (simp add: foldl_collect[OF ih])
    then show ?thesis by simp
  qed
qed

lemma collect_leaf:
  "type node = File \<or> type node = ArchiveFolder \<Longrightarrow>
   collectPathsRecursively node out = out @ [fullPathInArchive node]"
  by (subst collectPathsRecursively.simps) simp

lemma collect_folder:
  "type node = Folder \<Longrightarrow>
   collectPathsRecursively node out =
     out @ concat (map (\<lambda>ch. collectPathsRecursively ch []) (children node))"
  by (subst collectPathsRecursively.simps) (simp add: foldl_collect[OF collect_acc])

text \<open>
  C2. On the tree made from the entries \<open>a/b.txt\<close> and \<open>a/c/d.txt\<close>, the paths
  collected from the root, and from the folder \<open>a\<close>, are \<open>a/b.txt\<close> and \<open>c/d.txt\<close>:
  the walk of the second entry finds \<open>a\<close> and goes below it with \<open>accum\<close> still empty,
  so the path of \<open>c\<close> is \<open>c\<close>.
\<close>

theorem collectPaths_example_evaluation:
  "collectPathsRecursively (populateModel [''a/b.txt'', ''a/c/d.txt''] [] None root0) []
     = [''a/b.txt'', ''c/d.txt''] \<and>
   map (\<lambda>n. (name n, type n, collectPathsRecursively n []))
     (children (populateModel [''a/b.txt'', ''a/c/d.txt''] [] None root0))
     = [(''a'', Folder, [''a/b.txt'', ''c/d.txt''])]"
  by code_simp

section \<open>Passwords\<close>

lemma setPassword_sel [simp]:
  "m_archive (setPassword pw h) = m_archive h" "m_password (setPassword pw h) = pw"
  "setPassword pw (setPassword pw' h) = setPassword pw h"
  by (simp_all add: setPassword_def)

lemma setPassword_cong: "m_archive h = m_archive h' \<Longrightarrow> setPassword pw h = setPassword pw h'"
  by (cases h; cases h') (simp add: setPassword_def)

lemma sameSession_refl [simp]: "sameSession s s"
  by (simp add: sameSession_def)

lemma sameSession_trans: "sameSession a b \<Longrightarrow> sameSession b c \<Longrightarrow> sameSession a c"
  by (simp add: sameSession_def)

lemma sameSession_logEv [simp]: "sameSession s (logEv evs s)"
  by (simp add: sameSession_def logEv_def)

lemma setPasswordAndList_same: "sameSession s (snd (setPasswordAndList w pw s))"
  by (simp add: setPasswordAndList_def sameSession_def logEv_def Let_def)

lemma setPasswordAndList_fst:
  "fst (setPasswordAndList w pw s) = listEntries w (setPassword pw (backend s)) []"
  by (simp add: setPasswordAndList_def Let_def)

lemma listEntries_setPassword_same:
  "sameSession s s' \<Longrightarrow>
   listEntries w (setPassword pw (backend s')) [] = listEntries w (setPassword pw (backend s)) []"
proof -
  assume "sameSession s s'"
  then have "m_archive (backend s') = m_archive (backend s)" by (simp add: sameSession_def)
  then have "setPassword pw (backend s') = setPassword pw (backend s)" by (rule setPassword_cong)
  then show ?thesis by (rule arg_cong)
qed

lemma tryGlobalList_all_fail:
  "\<forall>pw \<in> set pws. listEntries w (setPassword pw (backend s)) [] = [] \<Longrightarrow>
   fst (tryGlobalList w pws s) = None \<and> sameSession s (snd (tryGlobalList w pws s))"
proof (induction pws arbitrary: s)
  case Nil
  show ?case by simp
next
  case (Cons pw pws)
  obtain entries s1 where r: "setPasswordAndList w pw s = (entries, s1)"
    by (cases "setPasswordAndList w pw s")
  have e: "entries = []"
    using Cons.prems setPasswordAndList_fst[of w pw s] r by simp
  have ss: "sameSession s s1" using setPasswordAndList_same[of s w pw] r by simp
  have "\<forall>pw \<in> set pws. listEntries w (setPassword pw (backend s1)) [] = []"
    using Cons.prems listEntries_setPassword_same[OF ss] by simp
  from Cons.IH[OF this] ss r e show ?case
    by (auto intro: sameSession_trans)
qed

lemma logEv_sel [simp]:
  "backend (logEv evs s) = backend s" "passwordCache (logEv evs s) = passwordCache s"
  "globalPasswords (logEv evs s) = globalPasswords s" "archiveStack (logEv evs s) = archiveStack s"
  "currentArchive (logEv evs s) = currentArchive s" "root (logEv evs s) = root s"
  "trace (logEv evs s) = trace s @ evs"
  by (simp_all add: logEv_def)

lemma setPasswordAndList_sel:
  "backend (snd (setPasswordAndList w pw s)) = setPassword pw (backend s)"
  "trace (snd (setPasswordAndList w pw s))
     = trace s @ [Run ''unzip'' (listArgs (setPassword pw (backend s)))]"
  by (simp_all add: setPasswordAndList_def Let_def)

lemma loadArchiveEntries_sel [simp]:
  "backend (loadArchiveEntries w entries p s) = backend s"
  "passwordCache (loadArchiveEntries w entries p s) = passwordCache s"
  "globalPasswords (loadArchiveEntries w entries p s) = globalPasswords s"
  "currentArchive (loadArchiveEntries w entries p s) = currentArchive s"
  "archiveStack (loadArchiveEntries w entries p s) = [fileName p]"
  "trace (loadArchiveEntries w entries p s) = trace s @ snd (loadMetadata w (backend s))"
  by (simp_all add: loadArchiveEntries_def)

lemma loadMetadata_no_prompt: "filter isPrompt (snd (loadMetadata w h)) = []"
  by (simp add: loadMetadata_def isPrompt_def Let_def split: option.splits)

lemma grows_refl [simp]: "grows s s"
  by (simp add: grows_def)

lemma grows_trans: "grows a b \<Longrightarrow> grows b c \<Longrightarrow> grows a c"
  by (auto simp: grows_def)

lemma grows_logEv [simp]: "grows s (logEv evs s)"
  by (simp add: grows_def)



lemma promptAndList_cancel:
  "\<not> snd answer \<Longrightarrow>
   fst (promptAndList w answer archivePath s) = Cancelled \<and>
   sameSession s (snd (promptAndList w answer archivePath s)) \<and>
   backend (snd (promptAndList w answer archivePath s)) = backend s"
  by (simp add: promptAndList_def Let_def)

text \<open>
  C7. The cache has no password for the archive, no password of the pool gives a
  listing, and the user cancels the dialog: the outcome is \<open>Cancelled\<close>, and the cache
  and the pool are what they were before the attempt.
\<close>

theorem cancel_leaves_cache_and_pool:
  assumes "passwordCache s archivePath = None"
    and "\<forall>pw \<in> set (globalPasswords s). listEntries w (setPassword pw (backend s)) [] = []"
    and "\<not> snd answer"
  shows "fst (attemptPasswordAndLoadArchive w answer archivePath s) = Cancelled \<and>
         passwordCache (snd (attemptPasswordAndLoadArchive w answer archivePath s)) = passwordCache s \<and>
         globalPasswords (snd (attemptPasswordAndLoadArchive w answer archivePath s)) = globalPasswords s"
proof -
  obtain r s1 where t: "tryGlobalList w (globalPasswords s) s = (r, s1)"
    by (cases "tryGlobalList w (globalPasswords s) s")
  from tryGlobalList_all_fail[OF assms(2)] t
  have r: "r = None" and ss: "sameSession s s1" by simp_all
  have a: "attemptPasswordAndLoadArchive w answer archivePath s = promptAndList w answer archivePath s1"
    using assms(1) t r by (simp add: attemptPasswordAndLoadArchive_def tryGlobalThenPrompt_def)
  from promptAndList_cancel[OF assms(3), of w archivePath s1] ss
  show ?thesis unfolding a by (simp add: sameSession_def)
qed

theorem cancel_leaves_cache_and_pool_witness:
  "passwordCache xState ''/home/u/A.vfsarc'' = None \<and>
   globalPasswords xState = [''x''] \<and>
   listEntries lockedWorld (setPassword ''x'' (backend xState)) [] = [] \<and>
   fst (attemptPasswordAndLoadArchive lockedWorld ([], False) ''/home/u/A.vfsarc'' xState)
     = Cancelled \<and>
   passwordCache (snd (attemptPasswordAndLoadArchive lockedWorld ([], False)
                         ''/home/u/A.vfsarc'' xState)) = passwordCache xState \<and>
   globalPasswords (snd (attemptPasswordAndLoadArchive lockedWorld ([], False)
                           ''/home/u/A.vfsarc'' xState)) = [''x'']"
proof -
  have c: "passwordCache xState ''/home/u/A.vfsarc'' = None" by code_simp
  have g: "globalPasswords xState = [''x'']" by code_simp
  have l: "listEntries lockedWorld (setPassword ''x'' (backend xState)) [] = []" by code_simp
  have h2: "\<forall>pw \<in> set (globalPasswords xState).
              listEntries lockedWorld (setPassword pw (backend xState)) [] = []"
    by (simp add: g l)
  have h3: "\<not> snd ([] :: string, False)" by simp
  from cancel_leaves_cache_and_pool[OF c h2 h3] c g l show ?thesis by simp
qed

subsection \<open>A password of the pool that works\<close>

text \<open>
  For a listing: with no password in the cache, the passwords of the pool are tried in
  their order; the first one that gives a listing is the outcome, is stored in the cache
  for the archive, and no dialog is shown.
\<close>

lemma tryGlobalList_trace:
  "filter isPrompt (trace (snd (tryGlobalList w pws s))) = filter isPrompt (trace s)"
proof (induction pws arbitrary: s)
  case Nil
  show ?case by simp
next
  case (Cons pw pws)
  obtain entries s1 where r: "setPasswordAndList w pw s = (entries, s1)"
    by (cases "setPasswordAndList w pw s")
  have "filter isPrompt (trace s1) = filter isPrompt (trace s)"
    using setPasswordAndList_sel(2)[of w pw s] r by (simp add: isPrompt_def)
  with Cons.IH[of s1] r show ?case by simp
qed

lemma tryGlobalList_hit:
  assumes "\<forall>p \<in> set pre. listEntries w (setPassword p (backend s)) [] = []"
    and "listEntries w (setPassword pw (backend s)) [] \<noteq> []"
  shows "fst (tryGlobalList w (pre @ pw # post) s)
           = Some (pw, listEntries w (setPassword pw (backend s)) []) \<and>
         sameSession s (snd (tryGlobalList w (pre @ pw # post) s)) \<and>
         backend (snd (tryGlobalList w (pre @ pw # post) s)) = setPassword pw (backend s)"
  using assms
proof (induction pre arbitrary: s)
  case Nil
  obtain entries s1 where r: "setPasswordAndList w pw s = (entries, s1)"
    by (cases "setPasswordAndList w pw s")
  with Nil setPasswordAndList_fst[of w pw s] setPasswordAndList_same[of s w pw]
    setPasswordAndList_sel(1)[of w pw s]
  show ?case by simp
next
  case (Cons p pre)
  obtain entries s1 where r: "setPasswordAndList w p s = (entries, s1)"
    by (cases "setPasswordAndList w p s")
  have e: "entries = []"
    using Cons.prems setPasswordAndList_fst[of w p s] r by simp
  have ss: "sameSession s s1" using setPasswordAndList_same[of s w p] r by simp
  have b: "backend s1 = setPassword p (backend s)"
    using setPasswordAndList_sel(1)[of w p s] r by simp
  have 1: "\<forall>p \<in> set pre. listEntries w (setPassword p (backend s1)) [] = []"
    using Cons.prems(1) by (simp add: b)
  have 2: "listEntries w (setPassword pw (backend s1)) [] \<noteq> []"
    using Cons.prems(2) by (simp add: b)
  from Cons.IH[OF 1 2] ss r e show ?case
    by (auto simp: b intro: sameSession_trans)
qed

lemma pool_hit_listing:
  assumes "passwordCache s archivePath = None"
    and "globalPasswords s = pre @ pw # post"
    and "\<forall>p \<in> set pre. listEntries w (setPassword p (backend s)) [] = []"
    and "listEntries w (setPassword pw (backend s)) [] \<noteq> []"
  shows "fst (attemptPasswordAndLoadArchive w answer archivePath s) = Resolved pw \<and>
         passwordCache (snd (attemptPasswordAndLoadArchive w answer archivePath s))
           = (passwordCache s)(archivePath \<mapsto> pw) \<and>
         globalPasswords (snd (attemptPasswordAndLoadArchive w answer archivePath s))
           = globalPasswords s \<and>
         filter isPrompt (trace (snd (attemptPasswordAndLoadArchive w answer archivePath s)))
           = filter isPrompt (trace s)"
proof -
  obtain r s1 where t: "tryGlobalList w (globalPasswords s) s = (r, s1)"
    by (cases "tryGlobalList w (globalPasswords s) s")
  from tryGlobalList_hit[OF assms(3,4), of post] t assms(2)
  have r: "r = Some (pw, listEntries w (setPassword pw (backend s)) [])"
    and ss: "sameSession s s1" by simp_all
  have tr: "filter isPrompt (trace s1) = filter isPrompt (trace s)"
    using tryGlobalList_trace[of w "globalPasswords s" s] t by simp
  show ?thesis
    using assms(1) t r ss tr
    by (simp add: attemptPasswordAndLoadArchive_def tryGlobalThenPrompt_def sameSession_def
          loadMetadata_no_prompt)
qed

lemma pooledSession_facts:
  "globalPasswords pooledSession = [''x'', ''y'']"
  "passwordCache pooledSession ''/home/u/Y.vfsarc'' = Some ''y''"
  "passwordCache pooledSession ''/home/u/Z.vfsarc'' = None"
  "archiveStack pooledSession = [''Y.vfsarc'']"
  "findNodeByPath ''folder/inner.vfsarc'' (root pooledSession) = Some innerItem"
  by code_simp+

lemma nestedSession_facts:
  "globalPasswords nestedSession = [''x'', ''y'']"
  "m_archive (backend nestedSession) = ''/tmp/qt_arch_tmp_1/folder/inner.vfsarc''"
  "passwordCache nestedSession ''/tmp/qt_arch_tmp_1/folder/inner.vfsarc'' = None"
  "archiveStack nestedSession = [''Y.vfsarc'', ''Y.vfsarc:folder/inner.vfsarc'']"
  "findNodeByPath ''deep.vfsarc'' (root nestedSession) = Some deepItem"
  by code_simp+

lemma pool_hit_listing_example:
  "fst (attemptPasswordAndLoadArchive sessionWorld ([], False) ''/home/u/Z.vfsarc''
          (pooledSession\<lparr>backend := snd (openArchive sessionWorld ''/home/u/Z.vfsarc'' (backend pooledSession)),
                          currentArchive := ''/home/u/Z.vfsarc''\<rparr>))
     = Resolved ''y'' \<and>
   passwordCache (onOpenArchive sessionWorld ''/home/u/Z.vfsarc'' ([], False) pooledSession)
     ''/home/u/Z.vfsarc'' = Some ''y'' \<and>
   filter isPrompt (trace (onOpenArchive sessionWorld ''/home/u/Z.vfsarc'' ([], False) pooledSession))
     = filter isPrompt (trace pooledSession)"
  by code_simp

text \<open>
  C3. For an extraction the code does not store the password. In the session inside the
  nested archive the pool is \<open>x\<close>, \<open>y\<close>, the cache has no password for the archive
  of the backend, and \<open>deep.vfsarc\<close> is extracted with \<open>y\<close> only:
  \<open>tryPasswordsForEntryAndExtract\<close> extracts it with \<open>y\<close> and leaves the cache without
  a password for the archive, and so does the whole double click, which goes on into
  \<open>deep.vfsarc\<close>.
\<close>

theorem pool_hit_on_extraction_not_cached:
  "globalPasswords nestedSession = [''x'', ''y''] \<and>
   passwordCache nestedSession (m_archive (backend nestedSession)) = None \<and>
   findNodeByPath ''deep.vfsarc'' (root nestedSession) = Some deepItem \<and>
   fst (tryPasswordsForEntryAndExtract sessionWorld ''deep.vfsarc'' nestedSession)
     = Some ''/tmp/qt_arch_tmp_1/deep.vfsarc'' \<and>
   m_password (backend (snd (tryPasswordsForEntryAndExtract sessionWorld ''deep.vfsarc''
                               nestedSession))) = ''y'' \<and>
   passwordCache (snd (tryPasswordsForEntryAndExtract sessionWorld ''deep.vfsarc'' nestedSession))
     (m_archive (backend nestedSession)) = None \<and>
   archiveStack (onArchiveDoubleClicked sessionWorld ([], False) (Some deepItem) nestedSession)
     = [''Y.vfsarc'', ''Y.vfsarc:folder/inner.vfsarc'', ''inner.vfsarc:deep.vfsarc''] \<and>
   passwordCache (onArchiveDoubleClicked sessionWorld ([], False) (Some deepItem) nestedSession)
     (m_archive (backend nestedSession)) = None"
  by code_simp

section \<open>The manifest\<close>

text \<open>
  C9. When the entry \<open>.manifest.json\<close> cannot be extracted, \<open>loadMetadata\<close> returns
  the version \<open>1.0\<close>, the current time, which is not empty, and the tag \<open>new\<close>; it
  writes this record to a temporary file and runs \<open>zip\<close> on the archive with that file,
  which is \<open>addFiles\<close> of the backend. Loading the entries of an archive runs it.
\<close>

theorem loadMetadata_creates_manifest:
  assumes "extractEntryToTemp w h ''.manifest.json'' = None" and "currentDateTime w \<noteq> []"
  shows "fst (loadMetadata w h) = \<lparr>version = ''1.0'', created = currentDateTime w, tags = [''new'']\<rparr> \<and>
         created (fst (loadMetadata w h)) \<noteq> [] \<and>
         snd (loadMetadata w h) =
           [Run ''unzip'' (extractArgs w h ''.manifest.json''),
            WriteTemp (tmpFileName w)
              (JObject [(''version'', JString ''1.0''), (''created'', JString (currentDateTime w)),
                        (''tags'', JArray [JString ''new''])]),
            Run ''zip'' [m_archive h, tmpFileName w]] \<and>
         (backend s = h \<longrightarrow>
            Run ''zip'' [m_archive h, tmpFileName w]
              \<in> set (trace (loadArchiveEntries w entries archivePath s)))"
  using assms by (simp add: loadMetadata_def Let_def addArgs_def)

theorem loadMetadata_creates_manifest_witness:
  "extractEntryToTemp lockedWorld lockedHandler ''.manifest.json'' = None \<and>
   fst (loadMetadata lockedWorld lockedHandler)
     = \<lparr>version = ''1.0'', created = ''2024-01-01T00:00:00'', tags = [''new'']\<rparr> \<and>
   snd (loadMetadata lockedWorld lockedHandler) =
     [Run ''unzip'' [''/home/u/A.vfsarc'', ''.manifest.json'', ''-d'', ''/tmp/qt_arch_tmp_1''],
      WriteTemp ''/tmp/qt_temp.1''
        (JObject [(''version'', JString ''1.0''), (''created'', JString ''2024-01-01T00:00:00''),
                  (''tags'', JArray [JString ''new''])]),
      Run ''zip'' [''/home/u/A.vfsarc'', ''/tmp/qt_temp.1'']]"
proof -
  have h1: "extractEntryToTemp lockedWorld lockedHandler ''.manifest.json'' = None" by code_simp
  have d: "currentDateTime lockedWorld = ''2024-01-01T00:00:00''" by code_simp
  then have h2: "currentDateTime lockedWorld \<noteq> []" by simp
  have t: "tmpFileName lockedWorld = ''/tmp/qt_temp.1''" by code_simp
  have a: "m_archive lockedHandler = ''/home/u/A.vfsarc''" by code_simp
  have x: "extractArgs lockedWorld lockedHandler ''.manifest.json''
         = [''/home/u/A.vfsarc'', ''.manifest.json'', ''-d'', ''/tmp/qt_arch_tmp_1'']" by code_simp
  from loadMetadata_creates_manifest[OF h1 h2] h1 show ?thesis by (simp add: d t a x)
qed

section \<open>The password dialogs\<close>


lemma setPasswordAndExtract_sel:
  "fst (setPasswordAndExtract w pw entry s) = extractEntryToTemp w (setPassword pw (backend s)) entry"
  "backend (snd (setPasswordAndExtract w pw entry s)) = setPassword pw (backend s)"
  "trace (snd (setPasswordAndExtract w pw entry s))
     = trace s @ [Run ''unzip'' (extractArgs w (setPassword pw (backend s)) entry)]"
  "sameSession s (snd (setPasswordAndExtract w pw entry s))"
  "grows s (snd (setPasswordAndExtract w pw entry s))"
  by (simp_all add: setPasswordAndExtract_def Let_def sameSession_def grows_def)

lemma extract_same_archive:
  "m_archive h = m_archive h' \<Longrightarrow>
   extractEntryToTemp w (setPassword pw h) entry = extractEntryToTemp w (setPassword pw h') entry"
proof -
  assume "m_archive h = m_archive h'"
  then have "setPassword pw h = setPassword pw h'" by (rule setPassword_cong)
  then show ?thesis by simp
qed
















section \<open>Entering a nested archive\<close>

lemma tryGlobalExtract_props:
  "sameSession s (snd (tryGlobalExtract w entry pws s)) \<and>
   grows s (snd (tryGlobalExtract w entry pws s))"
proof (induction pws arbitrary: s)
  case Nil
  show ?case by simp
next
  case (Cons pw pws)
  obtain r s1 where r: "setPasswordAndExtract w pw entry s = (r, s1)"
    by (cases "setPasswordAndExtract w pw entry s")
  have ss: "sameSession s s1" "grows s s1"
    using setPasswordAndExtract_sel(4,5)[of s w pw entry] r by simp_all
  show ?case
  proof (cases r)
    case None
    with r ss Cons.IH[of s1] show ?thesis
      by (auto intro: sameSession_trans grows_trans)
  next
    case (Some tmp)
    with r ss show ?thesis by simp
  qed
qed

lemma tryGlobalExtract_fst:
  "m_archive (backend s) = m_archive (backend t) \<Longrightarrow>
   fst (tryGlobalExtract w entry pws s) = fst (tryGlobalExtract w entry pws t)"
proof (induction pws arbitrary: s t)
  case Nil
  show ?case by simp
next
  case (Cons pw pws)
  obtain r s1 where r: "setPasswordAndExtract w pw entry s = (r, s1)"
    by (cases "setPasswordAndExtract w pw entry s")
  obtain r' t1 where r': "setPasswordAndExtract w pw entry t = (r', t1)"
    by (cases "setPasswordAndExtract w pw entry t")
  have eq: "r = r'"
    using setPasswordAndExtract_sel(1)[of w pw entry s] setPasswordAndExtract_sel(1)[of w pw entry t]
      r r' extract_same_archive[OF Cons.prems] by simp
  have "m_archive (backend s1) = m_archive (backend t1)"
    using setPasswordAndExtract_sel(2)[of w pw entry s] setPasswordAndExtract_sel(2)[of w pw entry t]
      r r' Cons.prems by simp
  from Cons.IH[OF this] r r' eq show ?case by (cases r') simp_all
qed

lemma tryPasswords_props:
  "sameSession s (snd (tryPasswordsForEntryAndExtract w entry s)) \<and>
   grows s (snd (tryPasswordsForEntryAndExtract w entry s))"
proof (cases "passwordCache s (m_archive (backend s))")
  case None
  then show ?thesis
    using tryGlobalExtract_props[of s w entry "globalPasswords s"]
    by (simp add: tryPasswordsForEntryAndExtract_def Let_def)
next
  case (Some cpw)
  obtain r s1 where r: "setPasswordAndExtract w cpw entry s = (r, s1)"
    by (cases "setPasswordAndExtract w cpw entry s")
  have ss: "sameSession s s1" "grows s s1"
    using setPasswordAndExtract_sel(4,5)[of s w cpw entry] r by simp_all
  show ?thesis
  proof (cases r)
    case None
    with Some r ss tryGlobalExtract_props[of s1 w entry "globalPasswords s1"] show ?thesis
      by (auto simp: tryPasswordsForEntryAndExtract_def Let_def
            intro: sameSession_trans grows_trans)
  next
    case (Some tmp)
    with \<open>passwordCache s (m_archive (backend s)) = Some cpw\<close> r ss show ?thesis
      by (simp add: tryPasswordsForEntryAndExtract_def Let_def)
  qed
qed

lemma tryPasswords_logEv:
  "fst (tryPasswordsForEntryAndExtract w entry (logEv evs s))
     = fst (tryPasswordsForEntryAndExtract w entry s)"
proof (cases "passwordCache s (m_archive (backend s))")
  case None
  then show ?thesis
    using tryGlobalExtract_fst[of "logEv evs s" s w entry "globalPasswords s"]
    by (simp add: tryPasswordsForEntryAndExtract_def Let_def)
next
  case (Some cpw)
  obtain r s1 where r: "setPasswordAndExtract w cpw entry s = (r, s1)"
    by (cases "setPasswordAndExtract w cpw entry s")
  obtain r' t1 where r': "setPasswordAndExtract w cpw entry (logEv evs s) = (r', t1)"
    by (cases "setPasswordAndExtract w cpw entry (logEv evs s)")
  have eq: "r' = r"
    using setPasswordAndExtract_sel(1)[of w cpw entry s]
      setPasswordAndExtract_sel(1)[of w cpw entry "logEv evs s"] r r' by simp
  have b: "m_archive (backend t1) = m_archive (backend s1)"
    using setPasswordAndExtract_sel(2)[of w cpw entry s]
      setPasswordAndExtract_sel(2)[of w cpw entry "logEv evs s"] r r' by simp
  have g: "globalPasswords t1 = globalPasswords s1"
    using setPasswordAndExtract_sel(4)[of s w cpw entry]
      setPasswordAndExtract_sel(4)[of "logEv evs s" w cpw entry] r r'
    by (simp add: sameSession_def)
  show ?thesis
    using Some r r' eq g tryGlobalExtract_fst[OF b, of w entry "globalPasswords s1"]
    by (cases r) (simp_all add: tryPasswordsForEntryAndExtract_def Let_def)
qed

lemma openNested_descended:
  assumes "fileExists w tmp"
    and "archiveStack s1 = archiveStack s" "currentArchive s1 = currentArchive s"
    and "root s1 = root s" "m_archive (backend s1) = m_archive (backend s)"
    and "grows s s1"
  shows "descended w entry tmp s (openNested w tmp entry s1)"
proof -
  from assms(6) obtain evs where evs: "trace s1 = trace s @ evs" by (auto simp: grows_def)
  show ?thesis
    using assms(1-5) evs
    by (simp add: descended_def openNested_def openArchive_def newHandler_def
          populateModel_def)
qed

lemma openedState_facts:
  "archiveStack openedState = [''A.vfsarc'']"
  "currentArchive openedState = ''/home/u/A.vfsarc''"
  "findNodeByPath ''folder/inner.vfsarc'' (root openedState) = Some innerItem"
  "extractEntryToTemp openWorld (backend openedState) (fullPathInArchive innerItem)
     = Some ''/tmp/qt_arch_tmp_1/folder/inner.vfsarc''"
  "extractEntryToTemp staleWorld (backend openedState) (fullPathInArchive innerItem)
     = Some ''/tmp/qt_arch_tmp_1/folder/inner.vfsarc''"
  "type innerItem = ArchiveFolder"
  "fileExists openWorld ''/tmp/qt_arch_tmp_1/folder/inner.vfsarc''"
  "\<not> fileExists staleWorld ''/tmp/qt_arch_tmp_1/folder/inner.vfsarc''"
  by code_simp+

text \<open>
  C6, as the claim states it, fails when the extraction reports success and the new
  backend cannot open the file: nothing is pushed and the old backend stays.
\<close>

theorem extracted_file_missing_no_descent:
  "type innerItem = ArchiveFolder \<and>
   extractEntryToTemp staleWorld (backend openedState) (fullPathInArchive innerItem)
     = Some ''/tmp/qt_arch_tmp_1/folder/inner.vfsarc'' \<and>
   archiveStack (onArchiveDoubleClicked staleWorld ([], False) (Some innerItem) openedState)
     = [''A.vfsarc''] \<and>
   m_archive (backend (onArchiveDoubleClicked staleWorld ([], False) (Some innerItem) openedState))
     = ''/home/u/A.vfsarc''"
  by code_simp

text \<open>
  C6, amended. The user activates an item of type \<open>ArchiveFolder\<close>, its extraction
  succeeds, with the password of the backend, with a password of the cache or the pool,
  or with a password that is not empty from the dialog, and the extracted file exists.
  Then a new backend is bound to the extracted file, one frame with the file name of the
  outer archive, a colon and the entry is pushed, the old backend is deleted, and the
  tree is built again from the whole listing of the new backend.
\<close>

theorem descend_pushes_frame:
  assumes "type it = ArchiveFolder" and "fileExists w tmp"
    and "extractEntryToTemp w (backend s) (fullPathInArchive it) = Some tmp \<or>
         extractEntryToTemp w (backend s) (fullPathInArchive it) = None \<and>
           fst (tryPasswordsForEntryAndExtract w (fullPathInArchive it) s) = Some tmp \<or>
         extractEntryToTemp w (backend s) (fullPathInArchive it) = None \<and>
           fst (tryPasswordsForEntryAndExtract w (fullPathInArchive it) s) = None \<and>
           snd answer \<and> fst answer \<noteq> [] \<and>
           extractEntryToTemp w (setPassword (fst answer) (backend s)) (fullPathInArchive it)
             = Some tmp"
  shows "descended w (fullPathInArchive it) tmp s (onArchiveDoubleClicked w answer (Some it) s)"
proof -
  let ?entry = "fullPathInArchive it"
  let ?s1 = "logEv [Run ''unzip'' (extractArgs w (backend s) ?entry)] s"
  obtain r s2 where t: "tryPasswordsForEntryAndExtract w ?entry ?s1 = (r, s2)"
    by (cases "tryPasswordsForEntryAndExtract w ?entry ?s1")
  have "fst (tryPasswordsForEntryAndExtract w ?entry ?s1)
      = fst (tryPasswordsForEntryAndExtract w ?entry s)"
    by (rule tryPasswords_logEv)
  with t have r: "r = fst (tryPasswordsForEntryAndExtract w ?entry s)" by simp
  have p2: "sameSession ?s1 s2" "grows ?s1 s2"
    using tryPasswords_props[of ?s1 w ?entry] t by simp_all
  have ss2: "sameSession s s2" using p2(1) by (simp add: sameSession_def)
  have g2: "grows s s2" using grows_trans[OF grows_logEv p2(2)] .
  from assms(3) show ?thesis
  proof (elim disjE conjE)
    assume direct: "extractEntryToTemp w (backend s) ?entry = Some tmp"
    have "descended w ?entry tmp s (openNested w tmp ?entry ?s1)"
      by (rule openNested_descended[OF assms(2)]) simp_all
    with direct assms(1) show ?thesis
      by (simp add: onArchiveDoubleClicked_def Let_def)
  next
    assume known0: "extractEntryToTemp w (backend s) ?entry = None"
      "fst (tryPasswordsForEntryAndExtract w ?entry s) = Some tmp"
    then have known: "extractEntryToTemp w (backend s) ?entry = None" "r = Some tmp"
      using r by simp_all
    have "descended w ?entry tmp s (openNested w tmp ?entry s2)"
      using ss2 g2 by (intro openNested_descended[OF assms(2)]) (simp_all add: sameSession_def)
    with known assms(1) t show ?thesis
      by (simp add: onArchiveDoubleClicked_def Let_def)
  next
    assume asked0: "extractEntryToTemp w (backend s) ?entry = None"
      "fst (tryPasswordsForEntryAndExtract w ?entry s) = None"
      "snd answer" "fst answer \<noteq> []"
      "extractEntryToTemp w (setPassword (fst answer) (backend s)) ?entry = Some tmp"
    then have asked: "extractEntryToTemp w (backend s) ?entry = None" "r = None"
      "snd answer" "fst answer \<noteq> []"
      "extractEntryToTemp w (setPassword (fst answer) (backend s)) ?entry = Some tmp"
      using r by simp_all
    let ?s3 = "logEv [Prompt ''Password Required'' (''Enter password to extract '' @ ?entry)] s2"
    obtain r4 s4 where x: "setPasswordAndExtract w (fst answer) ?entry ?s3 = (r4, s4)"
      by (cases "setPasswordAndExtract w (fst answer) ?entry ?s3")
    have "m_archive (backend ?s3) = m_archive (backend s)"
      using ss2 by (simp add: sameSession_def)
    then have r4: "r4 = Some tmp"
      using setPasswordAndExtract_sel(1)[of w "fst answer" ?entry ?s3] x asked(5)
        extract_same_archive[of "backend ?s3" "backend s" w "fst answer" ?entry]
      by simp
    have p4: "sameSession ?s3 s4" "grows ?s3 s4"
      using setPasswordAndExtract_sel(4,5)[of ?s3 w "fst answer" ?entry] x by simp_all
    have ss4: "sameSession s s4" using p4(1) ss2 by (simp add: sameSession_def)
    have g4: "grows s s4" using grows_trans[OF g2 grows_trans[OF grows_logEv p4(2)]] .
    let ?s5 = "s4\<lparr>passwordCache := (passwordCache s4)(m_archive (backend s4) \<mapsto> fst answer),
                   globalPasswords :=
                     (if fst answer \<notin> set (globalPasswords s4)
                      then globalPasswords s4 @ [fst answer] else globalPasswords s4)\<rparr>"
    have "descended w ?entry tmp s (openNested w tmp ?entry ?s5)"
      using ss4 g4
      by (intro openNested_descended[OF assms(2)]) (simp_all add: sameSession_def grows_def)
    moreover have "promptPasswordForArchiveAndLoad w answer ?entry s2 = openNested w tmp ?entry ?s5"
      using asked(3,4) x r4 by (simp add: promptPasswordForArchiveAndLoad_def Let_def)
    ultimately show ?thesis
      using asked(1,2) assms(1) t by (simp add: onArchiveDoubleClicked_def Let_def)
  qed
qed

theorem descend_pushes_frame_witness:
  "archiveStack openedState = [''A.vfsarc''] \<and>
   findNodeByPath ''folder/inner.vfsarc'' (root openedState) = Some innerItem \<and>
   descended openWorld ''folder/inner.vfsarc'' ''/tmp/qt_arch_tmp_1/folder/inner.vfsarc''
     openedState (onArchiveDoubleClicked openWorld ([], False) (Some innerItem) openedState) \<and>
   archiveStack (onArchiveDoubleClicked openWorld ([], False) (Some innerItem) openedState)
     = [''A.vfsarc'', ''A.vfsarc:folder/inner.vfsarc'']"
proof -
  have p: "fullPathInArchive innerItem = ''folder/inner.vfsarc''" by (simp add: innerItem_def)
  have f: "fileName ''/home/u/A.vfsarc'' = ''A.vfsarc''" by code_simp
  have d: "descended openWorld (fullPathInArchive innerItem)
             ''/tmp/qt_arch_tmp_1/folder/inner.vfsarc'' openedState
             (onArchiveDoubleClicked openWorld ([], False) (Some innerItem) openedState)"
    by (rule descend_pushes_frame[OF openedState_facts(6) openedState_facts(7)])
       (simp add: openedState_facts(4))
  then show ?thesis
    by (simp add: openedState_facts(1,2,3) p f descended_def)
qed

end
